theory Spec2Isabelle
  imports Main "HOL-Library.Word" "HOL-Library.Signed_Division"
begin

section \<open>Concurrent containers: common notions\<close>

text \<open>
  Every container of \<^verbatim>\<open>containers.h\<close> is embedded as a record of its fields and
  every member function as a HOL function from the state before the call to the result
  and the state after it. A C++ \<^verbatim>\<open>throw std::runtime_error("empty")\<close> is the value
  \<open>Inl Empty\<close>; an access through a null or dangling pointer, or outside an array, is
  the value \<open>Inl InvalidPointer\<close> or \<open>Inl OutOfBounds\<close>. A call that never returns
  (it blocks or spins for ever) is the value \<open>None\<close>.

  Elements are the C++ \<^verbatim>\<open>int\<close>; no operation of the library does arithmetic on an
  element, so they are modelled as \<open>int\<close>.

  Names are those of the source. A member function \<^verbatim>\<open>c::f\<close> is \<open>c_f\<close>. A field whose
  name several classes share (\<^verbatim>\<open>data\<close>, \<^verbatim>\<open>top\<close>, \<^verbatim>\<open>head\<close>, \<^verbatim>\<open>tail\<close>, \<^verbatim>\<open>lock\<close>,
  \<^verbatim>\<open>slots\<close>) or whose name is reserved (\<^verbatim>\<open>value\<close>, \<^verbatim>\<open>next\<close>, \<^verbatim>\<open>done\<close>) carries a
  prefix for its class.
\<close>

datatype error = Empty | OutOfBounds | InvalidPointer

section \<open>Epoch condition variable (condvar.cpp)\<close>

text \<open>
  \<^verbatim>\<open>struct condvar_no_spurious { std::condition_variable cv; std::size_t epoch = 0; }\<close>.
  The only field a caller can observe is \<open>epoch\<close>, a 64-bit unsigned counter.
\<close>

record condvar_no_spurious =
  epoch :: "64 word"

definition condvar_init :: condvar_no_spurious where
  "condvar_init = \<lparr>epoch = 0\<rparr>"

text \<open>
  \<^verbatim>\<open>cv.wait(lock, pred)\<close> of the standard library is \<^verbatim>\<open>while (!pred()) wait(lock);\<close>.
  The caller holds the mutex and sees the shared state \<open>s\<close>; each wait releases the
  mutex, blocks, and after a wake-up (a notification or a spurious one) re-acquires the
  mutex and sees the shared state as the other threads left it. The list \<open>ws\<close> holds
  these states, one per wake-up, in order. When no wake-up is left the thread stays
  blocked: \<open>None\<close>. The result is the state in which the wait returned and the wake-ups
  not yet used.
\<close>

fun cv_wait :: "('s \<Rightarrow> bool) \<Rightarrow> 's \<Rightarrow> 's list \<Rightarrow> ('s \<times> 's list) option" where
  "cv_wait pred s [] = (if pred s then Some (s, []) else None)"
| "cv_wait pred s (w # ws) = (if pred s then Some (s, w # ws) else cv_wait pred w ws)"

text \<open>
  \<^verbatim>\<open>condvar_no_spurious::wait\<close>: save the epoch, sleep until it changes. The condition
  variable is a field of the shared state; \<open>cvar\<close> selects it.
\<close>

definition condvar_wait ::
  "('s \<Rightarrow> condvar_no_spurious) \<Rightarrow> 's \<Rightarrow> 's list \<Rightarrow> ('s \<times> 's list) option" where
  "condvar_wait cvar s ws =
     (let my_epoch = epoch (cvar s)
      in cv_wait (\<lambda>s'. epoch (cvar s') \<noteq> my_epoch) s ws)"

text \<open>\<^verbatim>\<open>signal\<close> and \<^verbatim>\<open>broadcast\<close>: \<^verbatim>\<open>++epoch\<close>, then notify.\<close>

definition condvar_signal :: "condvar_no_spurious \<Rightarrow> condvar_no_spurious" where
  "condvar_signal c = c\<lparr>epoch := epoch c + 1\<rparr>"

definition condvar_broadcast :: "condvar_no_spurious \<Rightarrow> condvar_no_spurious" where
  "condvar_broadcast c = c\<lparr>epoch := epoch c + 1\<rparr>"

lemma cv_wait_dropWhile:
  "cv_wait pred s ws =
     (if pred s then Some (s, ws)
      else case dropWhile (\<lambda>w. \<not> pred w) ws of [] \<Rightarrow> None | w # rest \<Rightarrow> Some (w, rest))"
  by (induction ws arbitrary: s) auto

lemma cv_wait_shorter:
  "cv_wait pred s ws = Some (s', ws') \<Longrightarrow> \<not> pred s \<Longrightarrow> length ws' < length ws"
proof (induction ws arbitrary: s)
  case Nil
  then show ?case by simp
next
  case (Cons w ws)
  show ?case
  proof (cases "pred w")
    case True
    with Cons.prems show ?thesis by (cases ws) auto
  next
    case False
    with Cons.prems have "cv_wait pred w ws = Some (s', ws')" by simp
    from Cons.IH [OF this False] show ?thesis by simp
  qed
qed

lemma condvar_wait_shorter:
  "condvar_wait cvar s ws = Some (s', ws') \<Longrightarrow> length ws' < length ws"
  unfolding condvar_wait_def Let_def by (erule cv_wait_shorter) simp

section \<open>Bounded queue (condvar.cpp)\<close>

text \<open>
  \<^verbatim>\<open>class bounded_queue { static const int SIZE = 50; int buffer[SIZE];
  int head, tail, count; std::mutex lock; condvar_no_spurious not_full, not_empty; }\<close>.
  Every member function holds \<^verbatim>\<open>lock\<close> from its first statement to its return, except
  inside a wait, so a call is a function of the state it finds and of the states it finds
  at its wake-ups. The three counters are C++ \<^verbatim>\<open>int\<close>; they are modelled as \<open>int\<close>
  with the remainder of C++ (\<open>smod\<close>, truncating towards zero). In the states a
  constructed queue reaches they stay between 0 and \<open>SIZE\<close>, far from the overflow of
  a machine integer.
\<close>

definition SIZE :: int where
  "SIZE = 50"

record bounded_queue =
  buffer :: "int list"
  head :: int
  tail :: int
  count :: int
  not_full :: condvar_no_spurious
  not_empty :: condvar_no_spurious

text \<open>
  The constructor \<^verbatim>\<open>bounded_queue() : head(0), tail(0), count(0) {}\<close> leaves the buffer
  as it finds it: \<open>raw\<close> is the content of these \<open>SIZE\<close> cells before construction.
\<close>

definition bounded_queue_init :: "int list \<Rightarrow> bounded_queue" where
  "bounded_queue_init raw =
     \<lparr>buffer = raw, head = 0, tail = 0, count = 0,
      not_full = condvar_init, not_empty = condvar_init\<rparr>"

text \<open>\<^verbatim>\<open>while(count == SIZE) not_full.wait(lk);\<close>\<close>

function while_full ::
  "bounded_queue \<Rightarrow> bounded_queue list \<Rightarrow> (bounded_queue \<times> bounded_queue list) option" where
  "while_full q ws =
     (if count q = SIZE
      then (case condvar_wait not_full q ws of
              None \<Rightarrow> None
            | Some (q', ws') \<Rightarrow> while_full q' ws')
      else Some (q, ws))"
  by pat_completeness auto
termination
  by (relation "measure (\<lambda>(q, ws). length ws)") (auto dest: condvar_wait_shorter)

declare while_full.simps [simp del]

text \<open>\<^verbatim>\<open>while(count == 0) not_empty.wait(lk);\<close>\<close>

function while_empty ::
  "bounded_queue \<Rightarrow> bounded_queue list \<Rightarrow> (bounded_queue \<times> bounded_queue list) option" where
  "while_empty q ws =
     (if count q = 0
      then (case condvar_wait not_empty q ws of
              None \<Rightarrow> None
            | Some (q', ws') \<Rightarrow> while_empty q' ws')
      else Some (q, ws))"
  by pat_completeness auto
termination
  by (relation "measure (\<lambda>(q, ws). length ws)") (auto dest: condvar_wait_shorter)

declare while_empty.simps [simp del]

text \<open>
  \<^verbatim>\<open>bounded_queue::enqueue\<close>: wait while full, then
  \<^verbatim>\<open>buffer[tail] = v; tail = (tail + 1) % SIZE; count++; not_empty.signal();\<close>
\<close>

definition bounded_queue_enqueue ::
  "int \<Rightarrow> bounded_queue \<Rightarrow> bounded_queue list \<Rightarrow> (error + bounded_queue) option" where
  "bounded_queue_enqueue v q ws =
     (case while_full q ws of
        None \<Rightarrow> None
      | Some (q1, _) \<Rightarrow>
          if 0 \<le> tail q1 \<and> nat (tail q1) < length (buffer q1)
          then Some (Inr (q1\<lparr>buffer := (buffer q1)[nat (tail q1) := v],
                            tail := (tail q1 + 1) smod SIZE,
                            count := count q1 + 1,
                            not_empty := condvar_signal (not_empty q1)\<rparr>))
          else Some (Inl OutOfBounds))"

text \<open>
  \<^verbatim>\<open>bounded_queue::dequeue\<close>: wait while empty, then
  \<^verbatim>\<open>int v = buffer[head]; head = (head + 1) % SIZE; count--; not_full.signal(); return v;\<close>
\<close>

definition bounded_queue_dequeue ::
  "bounded_queue \<Rightarrow> bounded_queue list \<Rightarrow> (error + int \<times> bounded_queue) option" where
  "bounded_queue_dequeue q ws =
     (case while_empty q ws of
        None \<Rightarrow> None
      | Some (q1, _) \<Rightarrow>
          if 0 \<le> head q1 \<and> nat (head q1) < length (buffer q1)
          then Some (Inr (buffer q1 ! nat (head q1),
                          q1\<lparr>head := (head q1 + 1) smod SIZE,
                             count := count q1 - 1,
                             not_full := condvar_signal (not_full q1)\<rparr>))
          else Some (Inl OutOfBounds))"

text \<open>
  The states of a bounded queue in which its mutex is free: the constructed queue, and
  the state every completed \<^verbatim>\<open>enqueue\<close> and \<^verbatim>\<open>dequeue\<close> leaves. The states a call
  finds at its wake-ups are states other threads left, so they are of this kind too.
\<close>

inductive bq_reachable :: "bounded_queue \<Rightarrow> bool" where
  bq_init: "length raw = nat SIZE \<Longrightarrow> bq_reachable (bounded_queue_init raw)"
| bq_enqueue:
    "bq_reachable q \<Longrightarrow> (\<And>w. w \<in> set ws \<Longrightarrow> bq_reachable w) \<Longrightarrow>
     bounded_queue_enqueue v q ws = Some (Inr q') \<Longrightarrow> bq_reachable q'"
| bq_dequeue:
    "bq_reachable q \<Longrightarrow> (\<And>w. w \<in> set ws \<Longrightarrow> bq_reachable w) \<Longrightarrow>
     bounded_queue_dequeue q ws = Some (Inr (v, q')) \<Longrightarrow> bq_reachable q'"

text \<open>The inductive invariant: the two invariants of the data model, and the bounds
  that keep \<^verbatim>\<open>buffer[head]\<close> and \<^verbatim>\<open>buffer[tail]\<close> inside the array.\<close>

definition bq_inv :: "bounded_queue \<Rightarrow> bool" where
  "bq_inv q \<longleftrightarrow>
     0 \<le> count q \<and> count q \<le> SIZE \<and> tail q = (head q + count q) mod SIZE \<and>
     0 \<le> head q \<and> head q < SIZE \<and> length (buffer q) = nat SIZE"

section \<open>Single-global-lock stack and queue (sgl_stack.cpp, sgl_queue.cpp)\<close>

text \<open>
  \<^verbatim>\<open>class sgl_stack { std::stack<int> data; std::mutex lock; }\<close> and
  \<^verbatim>\<open>class sgl_queue { std::queue<int> data; std::mutex lock; }\<close>. Each member function
  holds \<^verbatim>\<open>lock\<close> through a \<^verbatim>\<open>std::lock_guard\<close> from its first statement to its exit
  (the exit by \<^verbatim>\<open>throw\<close> included), so a call is a function of the data it finds.
  A \<^verbatim>\<open>std::stack\<close> is the list of its elements with the top first, a
  \<^verbatim>\<open>std::queue\<close> the list of its elements with the front first.
\<close>

record sgl_stack =
  ss_data :: "int list"

record sgl_queue =
  sq_data :: "int list"

definition sgl_stack_init :: sgl_stack where
  "sgl_stack_init = \<lparr>ss_data = []\<rparr>"

definition sgl_queue_init :: sgl_queue where
  "sgl_queue_init = \<lparr>sq_data = []\<rparr>"

text \<open>\<^verbatim>\<open>sgl_stack::push\<close>: \<^verbatim>\<open>data.push(value);\<close>\<close>

definition sgl_stack_push :: "int \<Rightarrow> sgl_stack \<Rightarrow> sgl_stack" where
  "sgl_stack_push v s = s\<lparr>ss_data := v # ss_data s\<rparr>"

text \<open>\<^verbatim>\<open>sgl_stack::pop\<close>:
  \<^verbatim>\<open>if(data.empty()) throw std::runtime_error("empty"); int v = data.top(); data.pop(); return v;\<close>\<close>

definition sgl_stack_pop :: "sgl_stack \<Rightarrow> (error + int) \<times> sgl_stack" where
  "sgl_stack_pop s =
     (case ss_data s of
        [] \<Rightarrow> (Inl Empty, s)
      | v # rest \<Rightarrow> (Inr v, s\<lparr>ss_data := rest\<rparr>))"

text \<open>\<^verbatim>\<open>sgl_queue::enqueue\<close>: \<^verbatim>\<open>data.push(value);\<close>\<close>

definition sgl_queue_enqueue :: "int \<Rightarrow> sgl_queue \<Rightarrow> sgl_queue" where
  "sgl_queue_enqueue v s = s\<lparr>sq_data := sq_data s @ [v]\<rparr>"

text \<open>\<^verbatim>\<open>sgl_queue::dequeue\<close>:
  \<^verbatim>\<open>if(data.empty()) throw std::runtime_error("empty"); int v = data.front(); data.pop(); return v;\<close>\<close>

definition sgl_queue_dequeue :: "sgl_queue \<Rightarrow> (error + int) \<times> sgl_queue" where
  "sgl_queue_dequeue s =
     (case sq_data s of
        [] \<Rightarrow> (Inl Empty, s)
      | v # rest \<Rightarrow> (Inr v, s\<lparr>sq_data := rest\<rparr>))"

section \<open>Nodes, pointers and compare-and-swap\<close>

text \<open>
  \<^verbatim>\<open>struct node { int value; node* next; }\<close> (in the queue \<^verbatim>\<open>next\<close> is atomic). A
  pointer is an address or \<^verbatim>\<open>nullptr\<close> (\<open>None\<close>). A container keeps the nodes it has
  allocated in its heap, a list: the node at address \<open>a\<close> is the \<open>a\<close>-th element, and
  \<^verbatim>\<open>new node(v)\<close> appends the node \<open>{v, nullptr}\<close> and returns its address. No
  \<^verbatim>\<open>push\<close>, \<^verbatim>\<open>pop\<close>, \<^verbatim>\<open>enqueue\<close> or \<^verbatim>\<open>dequeue\<close> of the lock-free containers frees a
  node that was ever linked.
\<close>

type_synonym addr = nat

record node =
  node_value :: int
  node_next :: "addr option"

definition new_node :: "int \<Rightarrow> node list \<Rightarrow> addr \<times> node list" where
  "new_node v h = (length h, h @ [\<lparr>node_value = v, node_next = None\<rparr>])"

text \<open>
  \<^verbatim>\<open>obj.compare_exchange_weak(expected, desired)\<close> on the content \<open>obj\<close> of an atomic
  cell: the success flag and the new content. The weak form may fail although the
  content equals \<open>expected\<close>; the flag \<open>spurious\<close> says whether this call does. The
  strong form never does.
\<close>

definition compare_exchange_weak :: "bool \<Rightarrow> 'a \<Rightarrow> 'a \<Rightarrow> 'a \<Rightarrow> bool \<times> 'a" where
  "compare_exchange_weak spurious obj expected desired =
     (if obj = expected \<and> \<not> spurious then (True, desired) else (False, obj))"

definition compare_exchange_strong :: "'a \<Rightarrow> 'a \<Rightarrow> 'a \<Rightarrow> bool \<times> 'a" where
  "compare_exchange_strong obj expected desired =
     (if obj = expected then (True, desired) else (False, obj))"

text \<open>
  Every call of a lock-free operation takes a list \<open>sp\<close> of flags: its \<open>k\<close>-th weak
  compare-and-swap fails spuriously iff the \<open>k\<close>-th flag is \<open>True\<close>; beyond the end of
  the list none does.
\<close>

definition spurious :: "bool list \<Rightarrow> bool" where
  "spurious sp = (case sp of [] \<Rightarrow> False | b # _ \<Rightarrow> b)"

lemma spurious_nonempty: "spurious sp \<Longrightarrow> 0 < length sp"
  by (cases sp) (simp_all add: spurious_def)

section \<open>Treiber stack (treiber_stack.cpp)\<close>

text \<open>\<^verbatim>\<open>class treiber_stack { std::atomic<node*> top; }\<close>, constructed with
  \<^verbatim>\<open>top(nullptr)\<close>.\<close>

record treiber_stack =
  ts_top :: "addr option"
  ts_heap :: "node list"

definition treiber_stack_init :: treiber_stack where
  "treiber_stack_init = \<lparr>ts_top = None, ts_heap = []\<rparr>"

text \<open>
  The loop of \<^verbatim>\<open>treiber_stack::push\<close>, for the node \<open>n\<close> allocated before it:
  \<^verbatim>\<open>while(true) { node* old_top = top.load(); n->next = old_top;
  if(top.compare_exchange_weak(old_top, n)) return; }\<close>
\<close>

function treiber_stack_push_loop :: "bool list \<Rightarrow> addr \<Rightarrow> treiber_stack \<Rightarrow> treiber_stack" where
  "treiber_stack_push_loop sp n s =
     (let old_top = ts_top s;
          s1 = s\<lparr>ts_heap := (ts_heap s)[n := (ts_heap s ! n)\<lparr>node_next := old_top\<rparr>]\<rparr>
      in case compare_exchange_weak (spurious sp) (ts_top s1) old_top (Some n) of
           (True, t) \<Rightarrow> s1\<lparr>ts_top := t\<rparr>
         | (False, t) \<Rightarrow> treiber_stack_push_loop (tl sp) n (s1\<lparr>ts_top := t\<rparr>))"
  by pat_completeness auto
termination
  by (relation "measure (\<lambda>(sp, n, s). length sp)")
     (auto simp: compare_exchange_weak_def split: if_splits dest: spurious_nonempty)

declare treiber_stack_push_loop.simps [simp del]

text \<open>\<^verbatim>\<open>treiber_stack::push\<close>: \<^verbatim>\<open>node* n = new node(value);\<close> and the loop.\<close>

definition treiber_stack_push :: "bool list \<Rightarrow> int \<Rightarrow> treiber_stack \<Rightarrow> treiber_stack" where
  "treiber_stack_push sp v s =
     (case new_node v (ts_heap s) of
        (n, h) \<Rightarrow> treiber_stack_push_loop sp n (s\<lparr>ts_heap := h\<rparr>))"

text \<open>
  \<^verbatim>\<open>treiber_stack::pop\<close>:
  \<^verbatim>\<open>while(true) { node* old_top = top.load(); if(!old_top) throw std::runtime_error("empty");
  node* next = old_top->next; int v = old_top->value;
  if(top.compare_exchange_weak(old_top, next)) { return v; } }\<close>
  The popped node is not freed.
\<close>

function treiber_stack_pop :: "bool list \<Rightarrow> treiber_stack \<Rightarrow> (error + int) \<times> treiber_stack" where
  "treiber_stack_pop sp s =
     (let old_top = ts_top s
      in case old_top of
           None \<Rightarrow> (Inl Empty, s)
         | Some a \<Rightarrow>
             if a < length (ts_heap s)
             then let next = node_next (ts_heap s ! a);
                      v = node_value (ts_heap s ! a)
                  in case compare_exchange_weak (spurious sp) (ts_top s) old_top next of
                       (True, t) \<Rightarrow> (Inr v, s\<lparr>ts_top := t\<rparr>)
                     | (False, t) \<Rightarrow> treiber_stack_pop (tl sp) (s\<lparr>ts_top := t\<rparr>)
             else (Inl InvalidPointer, s))"
  by pat_completeness auto
termination
  by (relation "measure (\<lambda>(sp, s). length sp)")
     (auto simp: compare_exchange_weak_def split: if_splits dest: spurious_nonempty)

declare treiber_stack_pop.simps [simp del]

section \<open>Michael and Scott queue (msqueue.cpp)\<close>

text \<open>\<^verbatim>\<open>class msqueue { std::atomic<node*> head; std::atomic<node*> tail; }\<close>\<close>

record msqueue =
  msq_head :: "addr option"
  msq_tail :: "addr option"
  msq_heap :: "node list"

text \<open>The constructor:
  \<^verbatim>\<open>node* dummy = new node(0); head.store(dummy); tail.store(dummy);\<close>\<close>

definition msqueue_init :: msqueue where
  "msqueue_init =
     (case new_node 0 [] of
        (dummy, h) \<Rightarrow> \<lparr>msq_head = Some dummy, msq_tail = Some dummy, msq_heap = h\<rparr>)"

text \<open>
  The loop of \<^verbatim>\<open>msqueue::enqueue\<close>, for the node \<open>n\<close> allocated before it:
  \<^verbatim>\<open>while(true) { node* last = tail.load(); node* next = last->next.load();
  if(last == tail.load()) {
    if(!next) { if(last->next.compare_exchange_weak(next, n)) {
                  tail.compare_exchange_weak(last, n); return; } }
    else { tail.compare_exchange_weak(last, next); } } }\<close>
  The loop may run for ever on a heap whose nodes form a cycle, so it is a partial
  function: \<open>None\<close> is a call that does not return.
\<close>

partial_function (option) msqueue_enqueue_loop ::
  "bool list \<Rightarrow> addr \<Rightarrow> msqueue \<Rightarrow> (error + msqueue) option" where
  "msqueue_enqueue_loop sp n s =
     (let last = msq_tail s
      in case last of
           None \<Rightarrow> Some (Inl InvalidPointer)
         | Some l \<Rightarrow>
             if \<not> l < length (msq_heap s) then Some (Inl InvalidPointer)
             else
               let next = node_next (msq_heap s ! l)
               in if last = msq_tail s
                  then (case next of
                          None \<Rightarrow>
                            (case compare_exchange_weak (spurious sp)
                                    (node_next (msq_heap s ! l)) next (Some n) of
                               (linked, x) \<Rightarrow>
                                 let s1 = s\<lparr>msq_heap :=
                                            (msq_heap s)[l := (msq_heap s ! l)\<lparr>node_next := x\<rparr>]\<rparr>
                                 in if linked
                                    then (case compare_exchange_weak (spurious (tl sp))
                                                (msq_tail s1) last (Some n) of
                                            (_, t) \<Rightarrow> Some (Inr (s1\<lparr>msq_tail := t\<rparr>)))
                                    else msqueue_enqueue_loop (tl sp) n s1)
                        | Some _ \<Rightarrow>
                            (case compare_exchange_weak (spurious sp) (msq_tail s) last next of
                               (_, t) \<Rightarrow> msqueue_enqueue_loop (tl sp) n (s\<lparr>msq_tail := t\<rparr>)))
                  else msqueue_enqueue_loop sp n s)"

declare msqueue_enqueue_loop.simps [code]

text \<open>\<^verbatim>\<open>msqueue::enqueue\<close>: \<^verbatim>\<open>node* n = new node(value);\<close> and the loop.\<close>

definition msqueue_enqueue :: "bool list \<Rightarrow> int \<Rightarrow> msqueue \<Rightarrow> (error + msqueue) option" where
  "msqueue_enqueue sp v s =
     (case new_node v (msq_heap s) of
        (n, h) \<Rightarrow> msqueue_enqueue_loop sp n (s\<lparr>msq_heap := h\<rparr>))"

text \<open>
  \<^verbatim>\<open>msqueue::dequeue\<close>:
  \<^verbatim>\<open>while(true) { node* first = head.load(); node* last = tail.load();
  node* next = first->next.load();
  if(first == head.load()) {
    if(first == last) { if(!next) throw std::runtime_error("empty");
                        tail.compare_exchange_weak(last, next); }
    else { int v = next->value;
           if(head.compare_exchange_weak(first, next)) { return v; } } } }\<close>
  The node \<^verbatim>\<open>first\<close> is not freed.
\<close>

partial_function (option) msqueue_dequeue ::
  "bool list \<Rightarrow> msqueue \<Rightarrow> ((error + int) \<times> msqueue) option" where
  "msqueue_dequeue sp s =
     (let first = msq_head s;
          last = msq_tail s
      in case first of
           None \<Rightarrow> Some (Inl InvalidPointer, s)
         | Some f \<Rightarrow>
             if \<not> f < length (msq_heap s) then Some (Inl InvalidPointer, s)
             else
               let next = node_next (msq_heap s ! f)
               in if first = msq_head s
                  then if first = last
                       then (case next of
                               None \<Rightarrow> Some (Inl Empty, s)
                             | Some _ \<Rightarrow>
                                 (case compare_exchange_weak (spurious sp) (msq_tail s) last next of
                                    (_, t) \<Rightarrow> msqueue_dequeue (tl sp) (s\<lparr>msq_tail := t\<rparr>)))
                       else (case next of
                               None \<Rightarrow> Some (Inl InvalidPointer, s)
                             | Some nx \<Rightarrow>
                                 if \<not> nx < length (msq_heap s) then Some (Inl InvalidPointer, s)
                                 else
                                   let v = node_value (msq_heap s ! nx)
                                   in (case compare_exchange_weak (spurious sp)
                                             (msq_head s) first next of
                                         (advanced, h) \<Rightarrow>
                                           if advanced then Some (Inr v, s\<lparr>msq_head := h\<rparr>)
                                           else msqueue_dequeue (tl sp) (s\<lparr>msq_head := h\<rparr>)))
                  else msqueue_dequeue sp s)"

declare msqueue_dequeue.simps [code]

text \<open>
  The addresses \<open>as\<close> lead from the pointer \<open>p\<close> to the pointer \<open>q\<close>: each is the
  address of an allocated node, the first is \<open>p\<close>, each node's \<^verbatim>\<open>next\<close> is the next
  address, and the last node's \<^verbatim>\<open>next\<close> is \<open>q\<close>.
\<close>

fun path :: "node list \<Rightarrow> addr option \<Rightarrow> addr list \<Rightarrow> addr option \<Rightarrow> bool" where
  "path h p [] q = (p = q)"
| "path h p (a # as) q = (p = Some a \<and> a < length h \<and> path h (node_next (h ! a)) as q)"

text \<open>
  The shape of a queue whose chain of nodes is \<open>as\<close>: the chain starts at \<^verbatim>\<open>head\<close>
  (the dummy node), ends at a node whose \<^verbatim>\<open>next\<close> is null and repeats no node;
  \<^verbatim>\<open>tail\<close> is its last node or the one before it.
\<close>

definition msq_chain :: "msqueue \<Rightarrow> addr list \<Rightarrow> bool" where
  "msq_chain s as \<longleftrightarrow>
     as \<noteq> [] \<and> distinct as \<and> path (msq_heap s) (msq_head s) as None \<and>
     (msq_tail s = Some (last as) \<or>
      (2 \<le> length as \<and> msq_tail s = Some (as ! (length as - 2))))"

text \<open>The logical content: the values of the nodes after the dummy node, front first.\<close>

definition msq_contents :: "msqueue \<Rightarrow> addr list \<Rightarrow> int list" where
  "msq_contents s as = map (\<lambda>a. node_value (msq_heap s ! a)) (tl as)"

text \<open>The queue holds the elements \<open>xs\<close>, front first.\<close>

definition msq_abs :: "msqueue \<Rightarrow> int list \<Rightarrow> bool" where
  "msq_abs s xs \<longleftrightarrow> (\<exists>as. msq_chain s as \<and> msq_contents s as = xs)"

text \<open>The states of a queue between the calls of a run: the constructed queue, and the
  state every returning call leaves.\<close>

inductive msq_reachable :: "msqueue \<Rightarrow> bool" where
  msq_init: "msq_reachable msqueue_init"
| msq_enqueue:
    "msq_reachable s \<Longrightarrow> msqueue_enqueue sp v s = Some (Inr s') \<Longrightarrow> msq_reachable s'"
| msq_dequeue:
    "msq_reachable s \<Longrightarrow> msqueue_dequeue sp s = Some (r, s') \<Longrightarrow> msq_reachable s'"

section \<open>Elimination stack (elimination_stack.cpp)\<close>

text \<open>
  \<^verbatim>\<open>class elimination_stack { std::atomic<node*> top;
  std::atomic<int> elim_ops[ELIM_SIZE]; std::atomic<int> elim_vals[ELIM_SIZE]; }\<close> with
  \<^verbatim>\<open>#define ELIM_SIZE 8\<close>. The constructor sets \<^verbatim>\<open>top\<close> to null and every entry of
  both arrays to 0.
\<close>

definition ELIM_SIZE :: nat where
  "ELIM_SIZE = 8"

record elimination_stack =
  es_top :: "addr option"
  es_heap :: "node list"
  elim_ops :: "int list"
  elim_vals :: "int list"

definition elimination_stack_init :: elimination_stack where
  "elimination_stack_init =
     \<lparr>es_top = None, es_heap = [],
      elim_ops = replicate ELIM_SIZE 0, elim_vals = replicate ELIM_SIZE 0\<rparr>"

text \<open>
  The fallback loop of \<^verbatim>\<open>elimination_stack::push\<close>:
  \<^verbatim>\<open>while(true) { node* old_top = top.load(); n->next = old_top;
  if(top.compare_exchange_weak(old_top, n)) return; }\<close>
\<close>

function elimination_stack_push_loop ::
  "bool list \<Rightarrow> addr \<Rightarrow> elimination_stack \<Rightarrow> elimination_stack" where
  "elimination_stack_push_loop sp n s =
     (let old_top = es_top s;
          s1 = s\<lparr>es_heap := (es_heap s)[n := (es_heap s ! n)\<lparr>node_next := old_top\<rparr>]\<rparr>
      in case compare_exchange_weak (spurious sp) (es_top s1) old_top (Some n) of
           (True, t) \<Rightarrow> s1\<lparr>es_top := t\<rparr>
         | (False, t) \<Rightarrow> elimination_stack_push_loop (tl sp) n (s1\<lparr>es_top := t\<rparr>))"
  by pat_completeness auto
termination
  by (relation "measure (\<lambda>(sp, n, s). length sp)")
     (auto simp: compare_exchange_weak_def split: if_splits dest: spurious_nonempty)

declare elimination_stack_push_loop.simps [simp del]

text \<open>
  \<^verbatim>\<open>elimination_stack::push\<close>, where \<open>r\<close> is the value \<^verbatim>\<open>rand()\<close> returns:
  \<^verbatim>\<open>node* n = new node(value); int slot = rand() % ELIM_SIZE; int expected = 2;
  if(elim_ops[slot].compare_exchange_strong(expected, 0)) {
    elim_vals[slot] = value; delete n; return; }\<close>
  and the fallback loop. The node \<open>n\<close> is the last one allocated, so \<^verbatim>\<open>delete n\<close>
  removes the last node of the heap.
\<close>

definition elimination_stack_push ::
  "nat \<Rightarrow> bool list \<Rightarrow> int \<Rightarrow> elimination_stack \<Rightarrow> elimination_stack" where
  "elimination_stack_push r sp v s =
     (case new_node v (es_heap s) of
        (n, h) \<Rightarrow>
          let s1 = s\<lparr>es_heap := h\<rparr>;
              slot = r mod ELIM_SIZE
          in case compare_exchange_strong (elim_ops s1 ! slot) 2 0 of
               (eliminated, x) \<Rightarrow>
                 let s2 = s1\<lparr>elim_ops := (elim_ops s1)[slot := x]\<rparr>
                 in if eliminated
                    then s2\<lparr>elim_vals := (elim_vals s2)[slot := v],
                            es_heap := take n (es_heap s2)\<rparr>
                    else elimination_stack_push_loop sp n s2)"

text \<open>
  The fallback loop of \<^verbatim>\<open>elimination_stack::pop\<close>:
  \<^verbatim>\<open>while(true) { node* old_top = top.load(); if(!old_top) throw std::runtime_error("empty");
  node* next = old_top->next; int v = old_top->value;
  if(top.compare_exchange_weak(old_top, next)) return v; }\<close>
\<close>

function elimination_stack_pop_loop ::
  "bool list \<Rightarrow> elimination_stack \<Rightarrow> (error + int) \<times> elimination_stack" where
  "elimination_stack_pop_loop sp s =
     (let old_top = es_top s
      in case old_top of
           None \<Rightarrow> (Inl Empty, s)
         | Some a \<Rightarrow>
             if a < length (es_heap s)
             then let next = node_next (es_heap s ! a);
                      v = node_value (es_heap s ! a)
                  in case compare_exchange_weak (spurious sp) (es_top s) old_top next of
                       (True, t) \<Rightarrow> (Inr v, s\<lparr>es_top := t\<rparr>)
                     | (False, t) \<Rightarrow> elimination_stack_pop_loop (tl sp) (s\<lparr>es_top := t\<rparr>)
             else (Inl InvalidPointer, s))"
  by pat_completeness auto
termination
  by (relation "measure (\<lambda>(sp, s). length sp)")
     (auto simp: compare_exchange_weak_def split: if_splits dest: spurious_nonempty)

declare elimination_stack_pop_loop.simps [simp del]

text \<open>
  \<^verbatim>\<open>elimination_stack::pop\<close>:
  \<^verbatim>\<open>int slot = rand() % ELIM_SIZE; int expected = 1;
  if(elim_ops[slot].compare_exchange_strong(expected, 0)) { return elim_vals[slot].load(); }\<close>
  and the fallback loop.
\<close>

definition elimination_stack_pop ::
  "nat \<Rightarrow> bool list \<Rightarrow> elimination_stack \<Rightarrow> (error + int) \<times> elimination_stack" where
  "elimination_stack_pop r sp s =
     (let slot = r mod ELIM_SIZE
      in case compare_exchange_strong (elim_ops s ! slot) 1 0 of
           (eliminated, x) \<Rightarrow>
             let s1 = s\<lparr>elim_ops := (elim_ops s)[slot := x]\<rparr>
             in if eliminated then (Inr (elim_vals s1 ! slot), s1)
                else elimination_stack_pop_loop sp s1)"

text \<open>The Treiber stack inside an elimination stack: its \<^verbatim>\<open>top\<close> and its nodes.\<close>

definition treiber_of :: "elimination_stack \<Rightarrow> treiber_stack" where
  "treiber_of s = \<lparr>ts_top = es_top s, ts_heap = es_heap s\<rparr>"

text \<open>
  A run of calls by one thread: each \<^verbatim>\<open>push\<close> comes with the value \<^verbatim>\<open>rand()\<close> returns
  in it, the flags of its compare-and-swaps and its argument, each \<^verbatim>\<open>pop\<close> with the
  first two. The result of the run is the list of what the \<^verbatim>\<open>pop\<close> calls returned, and
  the final state. A Treiber stack does not call \<^verbatim>\<open>rand()\<close>.
\<close>

datatype stack_call = Push nat "bool list" int | Pop nat "bool list"

fun elimination_stack_run ::
  "stack_call list \<Rightarrow> elimination_stack \<Rightarrow> (error + int) list \<times> elimination_stack" where
  "elimination_stack_run [] s = ([], s)"
| "elimination_stack_run (Push r sp v # cs) s =
     elimination_stack_run cs (elimination_stack_push r sp v s)"
| "elimination_stack_run (Pop r sp # cs) s =
     (case elimination_stack_pop r sp s of
        (res, s') \<Rightarrow>
          (case elimination_stack_run cs s' of (rs, s'') \<Rightarrow> (res # rs, s'')))"

fun treiber_stack_run ::
  "stack_call list \<Rightarrow> treiber_stack \<Rightarrow> (error + int) list \<times> treiber_stack" where
  "treiber_stack_run [] s = ([], s)"
| "treiber_stack_run (Push r sp v # cs) s =
     treiber_stack_run cs (treiber_stack_push sp v s)"
| "treiber_stack_run (Pop r sp # cs) s =
     (case treiber_stack_pop sp s of
        (res, s') \<Rightarrow>
          (case treiber_stack_run cs s' of (rs, s'') \<Rightarrow> (res # rs, s'')))"

section \<open>Flat-combining stack and queue (fc_stack.cpp, fc_queue.cpp)\<close>

text \<open>
  \<^verbatim>\<open>struct slot { std::atomic<int> op; std::atomic<int> val; std::atomic<int> result;
  std::atomic<bool> done; } slots[MAX_THREADS];\<close> with \<^verbatim>\<open>#define MAX_THREADS 32\<close>.
\<close>

definition MAX_THREADS :: nat where
  "MAX_THREADS = 32"

record slot =
  slot_op :: int
  slot_val :: int
  slot_result :: int
  slot_done :: bool

subsection \<open>Slot assignment\<close>

text \<open>
  \<^verbatim>\<open>fc_stack::get_slot\<close>:
  \<^verbatim>\<open>static std::atomic<int> counter(0);
  static thread_local int my_slot = counter.fetch_add(1); return my_slot;\<close>
  The two statics belong to the function, not to a container. \<^verbatim>\<open>my_slot\<close> exists once
  per thread and is initialised when the thread first reaches the declaration;
  \<open>None\<close> is a thread that has not. \<^verbatim>\<open>fetch_add\<close> on a \<^verbatim>\<open>std::atomic<int>\<close> wraps
  around. Threads are numbered.
\<close>

record fc_stack_statics =
  fcs_counter :: "32 word"
  fcs_my_slot :: "nat \<Rightarrow> int option"

definition fc_stack_statics_init :: fc_stack_statics where
  "fc_stack_statics_init = \<lparr>fcs_counter = 0, fcs_my_slot = (\<lambda>tid. None)\<rparr>"

definition fc_stack_get_slot :: "nat \<Rightarrow> fc_stack_statics \<Rightarrow> int \<times> fc_stack_statics" where
  "fc_stack_get_slot tid g =
     (case fcs_my_slot g tid of
        Some my_slot \<Rightarrow> (my_slot, g)
      | None \<Rightarrow>
          let my_slot = sint (fcs_counter g)
          in (my_slot, g\<lparr>fcs_counter := fcs_counter g + 1,
                          fcs_my_slot := (fcs_my_slot g)(tid \<mapsto> my_slot)\<rparr>))"

text \<open>
  \<^verbatim>\<open>fc_queue::get_slot\<close>:
  \<^verbatim>\<open>static thread_local int my_slot = -1;
  if(my_slot == -1) { static std::atomic<int> counter(0);
                      my_slot = counter.fetch_add(1) % MAX_THREADS; }
  return my_slot;\<close>
\<close>

record fc_queue_statics =
  fcq_counter :: "32 word"
  fcq_my_slot :: "nat \<Rightarrow> int"

definition fc_queue_statics_init :: fc_queue_statics where
  "fc_queue_statics_init = \<lparr>fcq_counter = 0, fcq_my_slot = (\<lambda>tid. - 1)\<rparr>"

definition fc_queue_get_slot :: "nat \<Rightarrow> fc_queue_statics \<Rightarrow> int \<times> fc_queue_statics" where
  "fc_queue_get_slot tid g =
     (if fcq_my_slot g tid = - 1
      then let my_slot = sint (fcq_counter g) smod int MAX_THREADS
           in (my_slot, g\<lparr>fcq_counter := fcq_counter g + 1,
                           fcq_my_slot := (fcq_my_slot g)(tid := my_slot)\<rparr>)
      else (fcq_my_slot g tid, g))"

subsection \<open>The accesses of a call\<close>

text \<open>
  The fields of a slot are atomics, and a \<^verbatim>\<open>push\<close>, \<^verbatim>\<open>pop\<close>, \<^verbatim>\<open>enqueue\<close> or
  \<^verbatim>\<open>dequeue\<close> reads and writes them one access at a time, most of them without
  holding the combiner lock; other threads run between two accesses. A call is
  therefore a sequence of steps, one per access to the shared state, and \<open>fc_pc\<close> is
  the place of a thread in the text of its call (the body of \<^verbatim>\<open>combine\<close> included):

  \<^item> \<open>Post_op\<close>: \<^verbatim>\<open>slots[s].op = 1;\<close> (or \<^verbatim>\<open>= 2;\<close>)
  \<^item> \<open>Post_val\<close>: \<^verbatim>\<open>slots[s].val = value;\<close>
  \<^item> \<open>Post_done\<close>: \<^verbatim>\<open>slots[s].done = false;\<close>
  \<^item> \<open>Try_lock\<close>: \<^verbatim>\<open>if(lock.try_lock())\<close>
  \<^item> \<open>Load_op i\<close>: \<^verbatim>\<open>i < MAX_THREADS\<close> and \<^verbatim>\<open>int op = slots[i].op.load();\<close>
  \<^item> \<open>Serve_push i\<close>: \<^verbatim>\<open>data.push(slots[i].val);\<close>
  \<^item> \<open>Serve_pop i\<close>:
    \<^verbatim>\<open>if(!data.empty()) { slots[i].result = data.top(); data.pop(); }\<close>
    (\<^verbatim>\<open>data.front()\<close> in the queue)
  \<^item> \<open>Set_done i\<close>: \<^verbatim>\<open>slots[i].done = true;\<close>
  \<^item> \<open>Unlock\<close>: \<^verbatim>\<open>lock.unlock();\<close>
  \<^item> \<open>Spin\<close>: \<^verbatim>\<open>while(!slots[s].done) std::this_thread::yield();\<close>, one load of
    \<^verbatim>\<open>done\<close>
  \<^item> \<open>Reset_op\<close>: \<^verbatim>\<open>slots[s].op = 0;\<close>
  \<^item> \<open>Check_result\<close>: \<^verbatim>\<open>if(slots[s].result == -1) throw std::runtime_error("empty");\<close>
  \<^item> \<open>Return_result\<close>: \<^verbatim>\<open>return slots[s].result;\<close>, a second load of \<^verbatim>\<open>result\<close>
  \<^item> \<open>Returned r\<close>: the call is over; \<open>r\<close> is \<open>None\<close> for the \<^verbatim>\<open>void\<close> calls,
    the exception or the value returned for the others.

  \<^verbatim>\<open>data\<close> is not atomic; only the thread that holds the lock touches it, inside
  \<^verbatim>\<open>combine\<close>, so its reads and writes are part of the step of the slot access
  beside them.
\<close>

datatype fc_pc =
    Post_op
  | Post_val
  | Post_done
  | Try_lock
  | Load_op nat
  | Serve_push nat
  | Serve_pop nat
  | Set_done nat
  | Unlock
  | Spin
  | Reset_op
  | Check_result
  | Return_result
  | Returned "(error + int) option"

text \<open>What a thread has asked for: \<^verbatim>\<open>push(value)\<close> or \<^verbatim>\<open>enqueue(value)\<close>, posted as
  \<^verbatim>\<open>op = 1\<close>, or \<^verbatim>\<open>pop()\<close> or \<^verbatim>\<open>dequeue()\<close>, posted as \<^verbatim>\<open>op = 2\<close>.\<close>

datatype fc_request = Insert int | Remove

text \<open>The locals of a thread inside a call: its place, its slot \<^verbatim>\<open>s\<close> and its
  request.\<close>

record fc_thread =
  th_pc :: fc_pc
  th_slot :: nat
  th_req :: fc_request

fun fc_returned :: "fc_pc \<Rightarrow> (error + int) option option" where
  "fc_returned (Returned r) = Some r"
| "fc_returned pc = None"

text \<open>
  What other threads do to the container between two accesses of a call is a function
  on its state. \<open>ws\<close> lists these functions, the first one for what happens before
  the first access of the call, the next one before the second access, and so on;
  when the list is exhausted no other thread acts any more, and with \<open>[]\<close> the call
  runs alone.
\<close>

fun fc_others :: "('s \<Rightarrow> 's) list \<Rightarrow> 's \<Rightarrow> 's" where
  "fc_others [] st = st"
| "fc_others (w # ws) st = w st"

text \<open>An upper bound of the number of accesses that a call has left when no other
  thread acts and it does not wait at \<open>Spin\<close>.\<close>

fun fc_rank :: "fc_pc \<Rightarrow> nat" where
  "fc_rank (Returned r) = 0"
| "fc_rank Return_result = 1"
| "fc_rank Check_result = 2"
| "fc_rank Reset_op = 3"
| "fc_rank Spin = 4"
| "fc_rank Unlock = 4"
| "fc_rank (Load_op i) = 5 + 3 * (MAX_THREADS - i)"
| "fc_rank (Set_done i) = 6 + 3 * (MAX_THREADS - Suc i)"
| "fc_rank (Serve_push i) = 7 + 3 * (MAX_THREADS - Suc i)"
| "fc_rank (Serve_pop i) = 7 + 3 * (MAX_THREADS - Suc i)"
| "fc_rank Try_lock = 6 + 3 * MAX_THREADS"
| "fc_rank Post_done = 7 + 3 * MAX_THREADS"
| "fc_rank Post_val = 8 + 3 * MAX_THREADS"
| "fc_rank Post_op = 9 + 3 * MAX_THREADS"

subsection \<open>Flat-combining stack\<close>

text \<open>
  \<^verbatim>\<open>class fc_stack { std::stack<int> data; std::mutex lock; slot slots[MAX_THREADS]; }\<close>.
  \<open>fcs_lock\<close> says whether the mutex is held. The constructor
  \<^verbatim>\<open>for(int i = 0; i < MAX_THREADS; i++) { slots[i].op = 0; slots[i].done = false; }\<close>
  writes two fields of every slot and leaves \<^verbatim>\<open>val\<close> and \<^verbatim>\<open>result\<close> as it finds them:
  \<open>raw\<close> is the content of the \<open>MAX_THREADS\<close> slots before construction.
\<close>

record fc_stack =
  fcs_data :: "int list"
  fcs_lock :: bool
  fcs_slots :: "slot list"

definition fc_stack_init :: "slot list \<Rightarrow> fc_stack" where
  "fc_stack_init raw =
     \<lparr>fcs_data = [], fcs_lock = False,
      fcs_slots = map (\<lambda>sl. sl\<lparr>slot_op := 0, slot_done := False\<rparr>) raw\<rparr>"

text \<open>
  One access of a thread inside \<^verbatim>\<open>fc_stack::push\<close> or \<^verbatim>\<open>fc_stack::pop\<close>, after
  \<^verbatim>\<open>int s = get_slot();\<close>. \<^verbatim>\<open>push\<close> is
  \<^verbatim>\<open>slots[s].op = 1; slots[s].val = value; slots[s].done = false;
  if(lock.try_lock()) { combine(); lock.unlock(); }
  else { while(!slots[s].done) std::this_thread::yield(); }
  slots[s].op = 0;\<close>
  and \<^verbatim>\<open>pop\<close> is
  \<^verbatim>\<open>slots[s].op = 2; slots[s].done = false;
  if(lock.try_lock()) { combine(); lock.unlock(); }
  else { while(!slots[s].done) std::this_thread::yield(); }
  slots[s].op = 0;
  if(slots[s].result == -1) throw std::runtime_error("empty");
  return slots[s].result;\<close>
  with \<^verbatim>\<open>combine\<close>
  \<^verbatim>\<open>for(int i = 0; i < MAX_THREADS; i++) {
    int op = slots[i].op.load();
    if(op == 1) { data.push(slots[i].val); slots[i].done = true; }
    else if(op == 2) { if(!data.empty()) { slots[i].result = data.top(); data.pop(); }
                       slots[i].done = true; } }\<close>
  The top of \<^verbatim>\<open>data\<close> is the head of the list.
\<close>

definition fc_stack_step :: "fc_thread \<Rightarrow> fc_stack \<Rightarrow> fc_thread \<times> fc_stack" where
  "fc_stack_step th st =
     (let s = th_slot th; sl = fcs_slots st
      in case th_pc th of
           Post_op \<Rightarrow>
             (case th_req th of
                Insert v \<Rightarrow>
                  (th\<lparr>th_pc := Post_val\<rparr>, st\<lparr>fcs_slots := sl[s := (sl ! s)\<lparr>slot_op := 1\<rparr>]\<rparr>)
              | Remove \<Rightarrow>
                  (th\<lparr>th_pc := Post_done\<rparr>, st\<lparr>fcs_slots := sl[s := (sl ! s)\<lparr>slot_op := 2\<rparr>]\<rparr>))
         | Post_val \<Rightarrow>
             (case th_req th of
                Insert v \<Rightarrow>
                  (th\<lparr>th_pc := Post_done\<rparr>, st\<lparr>fcs_slots := sl[s := (sl ! s)\<lparr>slot_val := v\<rparr>]\<rparr>)
              | Remove \<Rightarrow> (th\<lparr>th_pc := Post_done\<rparr>, st))
         | Post_done \<Rightarrow>
             (th\<lparr>th_pc := Try_lock\<rparr>, st\<lparr>fcs_slots := sl[s := (sl ! s)\<lparr>slot_done := False\<rparr>]\<rparr>)
         | Try_lock \<Rightarrow>
             if fcs_lock st then (th\<lparr>th_pc := Spin\<rparr>, st)
             else (th\<lparr>th_pc := Load_op 0\<rparr>, st\<lparr>fcs_lock := True\<rparr>)
         | Load_op i \<Rightarrow>
             if i < MAX_THREADS
             then let op = slot_op (sl ! i)
                  in if op = 1 then (th\<lparr>th_pc := Serve_push i\<rparr>, st)
                     else if op = 2 then (th\<lparr>th_pc := Serve_pop i\<rparr>, st)
                     else (th\<lparr>th_pc := Load_op (Suc i)\<rparr>, st)
             else (th\<lparr>th_pc := Unlock\<rparr>, st)
         | Serve_push i \<Rightarrow>
             (th\<lparr>th_pc := Set_done i\<rparr>, st\<lparr>fcs_data := slot_val (sl ! i) # fcs_data st\<rparr>)
         | Serve_pop i \<Rightarrow>
             (case fcs_data st of
                [] \<Rightarrow> (th\<lparr>th_pc := Set_done i\<rparr>, st)
              | v # rest \<Rightarrow>
                  (th\<lparr>th_pc := Set_done i\<rparr>,
                   st\<lparr>fcs_data := rest, fcs_slots := sl[i := (sl ! i)\<lparr>slot_result := v\<rparr>]\<rparr>))
         | Set_done i \<Rightarrow>
             (th\<lparr>th_pc := Load_op (Suc i)\<rparr>,
              st\<lparr>fcs_slots := sl[i := (sl ! i)\<lparr>slot_done := True\<rparr>]\<rparr>)
         | Unlock \<Rightarrow> (th\<lparr>th_pc := Reset_op\<rparr>, st\<lparr>fcs_lock := False\<rparr>)
         | Spin \<Rightarrow>
             if slot_done (sl ! s) then (th\<lparr>th_pc := Reset_op\<rparr>, st) else (th, st)
         | Reset_op \<Rightarrow>
             (case th_req th of
                Insert v \<Rightarrow>
                  (th\<lparr>th_pc := Returned None\<rparr>, st\<lparr>fcs_slots := sl[s := (sl ! s)\<lparr>slot_op := 0\<rparr>]\<rparr>)
              | Remove \<Rightarrow>
                  (th\<lparr>th_pc := Check_result\<rparr>, st\<lparr>fcs_slots := sl[s := (sl ! s)\<lparr>slot_op := 0\<rparr>]\<rparr>))
         | Check_result \<Rightarrow>
             if slot_result (sl ! s) = - 1 then (th\<lparr>th_pc := Returned (Some (Inl Empty))\<rparr>, st)
             else (th\<lparr>th_pc := Return_result\<rparr>, st)
         | Return_result \<Rightarrow> (th\<lparr>th_pc := Returned (Some (Inr (slot_result (sl ! s))))\<rparr>, st)
         | Returned r \<Rightarrow> (th, st))"

lemma fc_stack_step_rank:
  assumes "fc_returned (th_pc th) = None"
    and "\<not> (th_pc th = Spin \<and> \<not> slot_done (fcs_slots st ! th_slot th))"
  shows "fc_rank (th_pc (fst (fc_stack_step th st))) < fc_rank (th_pc th)"
  using assms
  by (cases "th_pc th")
     (auto simp: fc_stack_step_def Let_def split: fc_request.splits list.splits)

text \<open>
  A call from its place \<open>th\<close> to its end, with the other threads acting as \<open>ws\<close> says.
  A thread that waits at \<open>Spin\<close> for a flag that is not set, when no other thread acts
  any more, waits for ever: \<open>None\<close>.
\<close>

function fc_stack_call ::
  "fc_thread \<Rightarrow> fc_stack \<Rightarrow> (fc_stack \<Rightarrow> fc_stack) list \<Rightarrow>
     ((error + int) option \<times> fc_stack) option" where
  "fc_stack_call th st ws =
     (case fc_returned (th_pc th) of
        Some r \<Rightarrow> Some (r, st)
      | None \<Rightarrow>
          if ws = [] \<and> th_pc th = Spin \<and> \<not> slot_done (fcs_slots st ! th_slot th) then None
          else fc_stack_call (fst (fc_stack_step th (fc_others ws st)))
                 (snd (fc_stack_step th (fc_others ws st))) (tl ws))"
  by pat_completeness auto
termination
proof (relation "measures [\<lambda>(th, st, ws). length ws, \<lambda>(th, st, ws). fc_rank (th_pc th)]")
  show "wf (measures [\<lambda>(th, st, ws). length ws, \<lambda>(th, st, ws). fc_rank (th_pc th)])"
    by simp
next
  fix th :: fc_thread and st :: fc_stack and ws :: "(fc_stack \<Rightarrow> fc_stack) list"
  assume r: "fc_returned (th_pc th) = None"
    and s: "\<not> (ws = [] \<and> th_pc th = Spin \<and> \<not> slot_done (fcs_slots st ! th_slot th))"
  show "((fst (fc_stack_step th (fc_others ws st)),
          snd (fc_stack_step th (fc_others ws st)), tl ws), th, st, ws)
        \<in> measures [\<lambda>(th, st, ws). length ws, \<lambda>(th, st, ws). fc_rank (th_pc th)]"
  proof (cases ws)
    case Nil
    with s have "\<not> (th_pc th = Spin \<and> \<not> slot_done (fcs_slots st ! th_slot th))" by simp
    from fc_stack_step_rank [OF r this] Nil show ?thesis by simp
  next
    case (Cons w ws')
    then show ?thesis by simp
  qed
qed

declare fc_stack_call.simps [simp del]


text \<open>
  \<^verbatim>\<open>fc_stack::pop\<close>, called by the thread \<open>tid\<close>: \<^verbatim>\<open>int s = get_slot();\<close> and the
  accesses from \<open>Post_op\<close> on. A \<^verbatim>\<open>pop\<close> ends at \<open>Check_result\<close> or at
  \<open>Return_result\<close>, with an exception or a value, never as a \<^verbatim>\<open>void\<close> call does;
  \<open>None\<close> is the call that waits for ever.
\<close>

definition fc_stack_pop ::
  "nat \<Rightarrow> fc_stack_statics \<times> fc_stack \<Rightarrow> (fc_stack \<Rightarrow> fc_stack) list \<Rightarrow>
     ((error + int) \<times> fc_stack_statics \<times> fc_stack) option" where
  "fc_stack_pop tid gst ws =
     (case gst of
        (g, st) \<Rightarrow>
          (case fc_stack_get_slot tid g of
             (s, g') \<Rightarrow>
               if \<not> (0 \<le> s \<and> nat s < length (fcs_slots st))
               then Some (Inl OutOfBounds, g', st)
               else
                 (case fc_stack_call \<lparr>th_pc = Post_op, th_slot = nat s, th_req = Remove\<rparr>
                         st ws of
                    Some (Some r, st') \<Rightarrow> Some (r, g', st')
                  | _ \<Rightarrow> None)))"



subsection \<open>Flat-combining queue\<close>

text \<open>
  \<^verbatim>\<open>class fc_queue { std::queue<int> data; std::mutex lock; slot slots[MAX_THREADS]; }\<close>,
  with the constructor of the stack.
\<close>

record fc_queue =
  fcq_data :: "int list"
  fcq_lock :: bool
  fcq_slots :: "slot list"

definition fc_queue_init :: "slot list \<Rightarrow> fc_queue" where
  "fc_queue_init raw =
     \<lparr>fcq_data = [], fcq_lock = False,
      fcq_slots = map (\<lambda>sl. sl\<lparr>slot_op := 0, slot_done := False\<rparr>) raw\<rparr>"

text \<open>
  One access of a thread inside \<^verbatim>\<open>fc_queue::enqueue\<close> or \<^verbatim>\<open>fc_queue::dequeue\<close>, after
  \<^verbatim>\<open>int s = get_slot();\<close>. \<^verbatim>\<open>enqueue\<close> is
  \<^verbatim>\<open>slots[s].op = 1; slots[s].val = value; slots[s].done = false;
  if(lock.try_lock()) { combine(); lock.unlock(); }
  else { while(!slots[s].done) std::this_thread::yield(); }
  slots[s].op = 0;\<close>
  and \<^verbatim>\<open>dequeue\<close> is
  \<^verbatim>\<open>slots[s].op = 2; slots[s].done = false;
  if(lock.try_lock()) { combine(); lock.unlock(); }
  else { while(!slots[s].done) std::this_thread::yield(); }
  slots[s].op = 0;
  if(slots[s].result == -1) throw std::runtime_error("empty");
  return slots[s].result;\<close>
  with \<^verbatim>\<open>combine\<close>
  \<^verbatim>\<open>for(int i = 0; i < MAX_THREADS; i++) {
    int op = slots[i].op.load();
    if(op == 1) { data.push(slots[i].val); slots[i].done = true; }
    else if(op == 2) { if(!data.empty()) { slots[i].result = data.front(); data.pop(); }
                       slots[i].done = true; } }\<close>
  The front of \<^verbatim>\<open>data\<close> is the head of the list; \<^verbatim>\<open>data.push\<close> appends.
\<close>

definition fc_queue_step :: "fc_thread \<Rightarrow> fc_queue \<Rightarrow> fc_thread \<times> fc_queue" where
  "fc_queue_step th st =
     (let s = th_slot th; sl = fcq_slots st
      in case th_pc th of
           Post_op \<Rightarrow>
             (case th_req th of
                Insert v \<Rightarrow>
                  (th\<lparr>th_pc := Post_val\<rparr>, st\<lparr>fcq_slots := sl[s := (sl ! s)\<lparr>slot_op := 1\<rparr>]\<rparr>)
              | Remove \<Rightarrow>
                  (th\<lparr>th_pc := Post_done\<rparr>, st\<lparr>fcq_slots := sl[s := (sl ! s)\<lparr>slot_op := 2\<rparr>]\<rparr>))
         | Post_val \<Rightarrow>
             (case th_req th of
                Insert v \<Rightarrow>
                  (th\<lparr>th_pc := Post_done\<rparr>, st\<lparr>fcq_slots := sl[s := (sl ! s)\<lparr>slot_val := v\<rparr>]\<rparr>)
              | Remove \<Rightarrow> (th\<lparr>th_pc := Post_done\<rparr>, st))
         | Post_done \<Rightarrow>
             (th\<lparr>th_pc := Try_lock\<rparr>, st\<lparr>fcq_slots := sl[s := (sl ! s)\<lparr>slot_done := False\<rparr>]\<rparr>)
         | Try_lock \<Rightarrow>
             if fcq_lock st then (th\<lparr>th_pc := Spin\<rparr>, st)
             else (th\<lparr>th_pc := Load_op 0\<rparr>, st\<lparr>fcq_lock := True\<rparr>)
         | Load_op i \<Rightarrow>
             if i < MAX_THREADS
             then let op = slot_op (sl ! i)
                  in if op = 1 then (th\<lparr>th_pc := Serve_push i\<rparr>, st)
                     else if op = 2 then (th\<lparr>th_pc := Serve_pop i\<rparr>, st)
                     else (th\<lparr>th_pc := Load_op (Suc i)\<rparr>, st)
             else (th\<lparr>th_pc := Unlock\<rparr>, st)
         | Serve_push i \<Rightarrow>
             (th\<lparr>th_pc := Set_done i\<rparr>, st\<lparr>fcq_data := fcq_data st @ [slot_val (sl ! i)]\<rparr>)
         | Serve_pop i \<Rightarrow>
             (case fcq_data st of
                [] \<Rightarrow> (th\<lparr>th_pc := Set_done i\<rparr>, st)
              | v # rest \<Rightarrow>
                  (th\<lparr>th_pc := Set_done i\<rparr>,
                   st\<lparr>fcq_data := rest, fcq_slots := sl[i := (sl ! i)\<lparr>slot_result := v\<rparr>]\<rparr>))
         | Set_done i \<Rightarrow>
             (th\<lparr>th_pc := Load_op (Suc i)\<rparr>,
              st\<lparr>fcq_slots := sl[i := (sl ! i)\<lparr>slot_done := True\<rparr>]\<rparr>)
         | Unlock \<Rightarrow> (th\<lparr>th_pc := Reset_op\<rparr>, st\<lparr>fcq_lock := False\<rparr>)
         | Spin \<Rightarrow>
             if slot_done (sl ! s) then (th\<lparr>th_pc := Reset_op\<rparr>, st) else (th, st)
         | Reset_op \<Rightarrow>
             (case th_req th of
                Insert v \<Rightarrow>
                  (th\<lparr>th_pc := Returned None\<rparr>, st\<lparr>fcq_slots := sl[s := (sl ! s)\<lparr>slot_op := 0\<rparr>]\<rparr>)
              | Remove \<Rightarrow>
                  (th\<lparr>th_pc := Check_result\<rparr>, st\<lparr>fcq_slots := sl[s := (sl ! s)\<lparr>slot_op := 0\<rparr>]\<rparr>))
         | Check_result \<Rightarrow>
             if slot_result (sl ! s) = - 1 then (th\<lparr>th_pc := Returned (Some (Inl Empty))\<rparr>, st)
             else (th\<lparr>th_pc := Return_result\<rparr>, st)
         | Return_result \<Rightarrow> (th\<lparr>th_pc := Returned (Some (Inr (slot_result (sl ! s))))\<rparr>, st)
         | Returned r \<Rightarrow> (th, st))"

lemma fc_queue_step_rank:
  assumes "fc_returned (th_pc th) = None"
    and "\<not> (th_pc th = Spin \<and> \<not> slot_done (fcq_slots st ! th_slot th))"
  shows "fc_rank (th_pc (fst (fc_queue_step th st))) < fc_rank (th_pc th)"
  using assms
  by (cases "th_pc th")
     (auto simp: fc_queue_step_def Let_def split: fc_request.splits list.splits)

text \<open>
  A call from its place \<open>th\<close> to its end, with the other threads acting as \<open>ws\<close> says.
  A thread that waits at \<open>Spin\<close> for a flag that is not set, when no other thread acts
  any more, waits for ever: \<open>None\<close>.
\<close>

function fc_queue_call ::
  "fc_thread \<Rightarrow> fc_queue \<Rightarrow> (fc_queue \<Rightarrow> fc_queue) list \<Rightarrow>
     ((error + int) option \<times> fc_queue) option" where
  "fc_queue_call th st ws =
     (case fc_returned (th_pc th) of
        Some r \<Rightarrow> Some (r, st)
      | None \<Rightarrow>
          if ws = [] \<and> th_pc th = Spin \<and> \<not> slot_done (fcq_slots st ! th_slot th) then None
          else fc_queue_call (fst (fc_queue_step th (fc_others ws st)))
                 (snd (fc_queue_step th (fc_others ws st))) (tl ws))"
  by pat_completeness auto
termination
proof (relation "measures [\<lambda>(th, st, ws). length ws, \<lambda>(th, st, ws). fc_rank (th_pc th)]")
  show "wf (measures [\<lambda>(th, st, ws). length ws, \<lambda>(th, st, ws). fc_rank (th_pc th)])"
    by simp
next
  fix th :: fc_thread and st :: fc_queue and ws :: "(fc_queue \<Rightarrow> fc_queue) list"
  assume r: "fc_returned (th_pc th) = None"
    and s: "\<not> (ws = [] \<and> th_pc th = Spin \<and> \<not> slot_done (fcq_slots st ! th_slot th))"
  show "((fst (fc_queue_step th (fc_others ws st)),
          snd (fc_queue_step th (fc_others ws st)), tl ws), th, st, ws)
        \<in> measures [\<lambda>(th, st, ws). length ws, \<lambda>(th, st, ws). fc_rank (th_pc th)]"
  proof (cases ws)
    case Nil
    with s have "\<not> (th_pc th = Spin \<and> \<not> slot_done (fcq_slots st ! th_slot th))" by simp
    from fc_queue_step_rank [OF r this] Nil show ?thesis by simp
  next
    case (Cons w ws')
    then show ?thesis by simp
  qed
qed

declare fc_queue_call.simps [simp del]


text \<open>
  \<^verbatim>\<open>fc_queue::dequeue\<close>, called by the thread \<open>tid\<close>: \<^verbatim>\<open>int s = get_slot();\<close> and the
  accesses from \<open>Post_op\<close> on. A \<^verbatim>\<open>dequeue\<close> ends at \<open>Check_result\<close> or at
  \<open>Return_result\<close>, with an exception or a value, never as a \<^verbatim>\<open>void\<close> call does;
  \<open>None\<close> is the call that waits for ever.
\<close>

definition fc_queue_dequeue ::
  "nat \<Rightarrow> fc_queue_statics \<times> fc_queue \<Rightarrow> (fc_queue \<Rightarrow> fc_queue) list \<Rightarrow>
     ((error + int) \<times> fc_queue_statics \<times> fc_queue) option" where
  "fc_queue_dequeue tid gst ws =
     (case gst of
        (g, st) \<Rightarrow>
          (case fc_queue_get_slot tid g of
             (s, g') \<Rightarrow>
               if \<not> (0 \<le> s \<and> nat s < length (fcq_slots st))
               then Some (Inl OutOfBounds, g', st)
               else
                 (case fc_queue_call \<lparr>th_pc = Post_op, th_slot = nat s, th_req = Remove\<rparr>
                         st ws of
                    Some (Some r, st') \<Rightarrow> Some (r, g', st')
                  | _ \<Rightarrow> None)))"



subsection \<open>Containers at rest\<close>

text \<open>A flat-combining container between the calls of a run by one thread at a time:
  the combiner lock is free and no slot holds a request.\<close>

definition fcs_idle :: "fc_stack \<Rightarrow> bool" where
  "fcs_idle st \<longleftrightarrow>
     \<not> fcs_lock st \<and> length (fcs_slots st) = MAX_THREADS \<and>
     (\<forall>i < MAX_THREADS. slot_op (fcs_slots st ! i) = 0)"

definition fcq_idle :: "fc_queue \<Rightarrow> bool" where
  "fcq_idle st \<longleftrightarrow>
     \<not> fcq_lock st \<and> length (fcq_slots st) = MAX_THREADS \<and>
     (\<forall>i < MAX_THREADS. slot_op (fcq_slots st ! i) = 0)"

section \<open>Theorems: epoch condition variable\<close>

lemma condvar_wait_eq:
  "condvar_wait cvar s ws =
     (case dropWhile (\<lambda>w. epoch (cvar w) = epoch (cvar s)) ws of
        [] \<Rightarrow> None
      | w # rest \<Rightarrow> Some (w, rest))"
  by (simp add: condvar_wait_def cv_wait_dropWhile)

text \<open>
  Claim C9. A wait that captured epoch \<open>e\<close> returns at the first wake-up at which the
  epoch differs from \<open>e\<close>, and at no earlier one: as long as the wake-ups (however many,
  spurious or not) find the epoch equal to \<open>e\<close> the wait does not return, and when it
  returns the epoch differs from the captured value.
\<close>

theorem condvar_wait_no_spurious:
  "((\<forall>w \<in> set ws. epoch (cvar w) = epoch (cvar s)) \<longrightarrow> condvar_wait cvar s ws = None) \<and>
   (\<forall>s' rest. condvar_wait cvar s ws = Some (s', rest) \<longrightarrow>
      epoch (cvar s') \<noteq> epoch (cvar s) \<and>
      (\<exists>spurious. ws = spurious @ s' # rest \<and>
         (\<forall>w \<in> set spurious. epoch (cvar w) = epoch (cvar s))))"
proof (intro conjI allI impI)
  assume "\<forall>w \<in> set ws. epoch (cvar w) = epoch (cvar s)"
  then have "dropWhile (\<lambda>w. epoch (cvar w) = epoch (cvar s)) ws = []"
    by simp
  then show "condvar_wait cvar s ws = None"
    by (simp only: condvar_wait_eq list.case)
next
  fix s' rest
  assume ret: "condvar_wait cvar s ws = Some (s', rest)"
  let ?same = "\<lambda>w. epoch (cvar w) = epoch (cvar s)"
  from ret have d: "dropWhile ?same ws = s' # rest"
    by (auto simp: condvar_wait_eq split: list.splits)
  then show "epoch (cvar s') \<noteq> epoch (cvar s)"
    using hd_dropWhile [of ?same ws] by simp
  have "ws = takeWhile ?same ws @ s' # rest"
    using d takeWhile_dropWhile_id [of ?same ws] by simp
  moreover have "\<forall>w \<in> set (takeWhile ?same ws). ?same w"
    by (auto dest: set_takeWhileD)
  ultimately show "\<exists>spurious. ws = spurious @ s' # rest \<and> (\<forall>w \<in> set spurious. ?same w)"
    by blast
qed

theorem condvar_wait_no_spurious_witness:
  "condvar_wait id \<lparr>epoch = 5\<rparr> [\<lparr>epoch = 5\<rparr>, \<lparr>epoch = 5\<rparr>, \<lparr>epoch = 5\<rparr>] = None \<and>
   condvar_wait id \<lparr>epoch = 5\<rparr> [\<lparr>epoch = 5\<rparr>, \<lparr>epoch = 5\<rparr>, \<lparr>epoch = 6\<rparr>, \<lparr>epoch = 7\<rparr>]
     = Some (\<lparr>epoch = 6\<rparr>, [\<lparr>epoch = 7\<rparr>]) \<and>
   epoch (id (\<lparr>epoch = 6\<rparr> :: condvar_no_spurious)) \<noteq> epoch (id (\<lparr>epoch = 5\<rparr> :: condvar_no_spurious))"
proof -
  let ?s = "\<lparr>epoch = 5\<rparr> :: condvar_no_spurious"
  let ?ws1 = "[\<lparr>epoch = 5\<rparr>, \<lparr>epoch = 5\<rparr>, \<lparr>epoch = 5\<rparr>] :: condvar_no_spurious list"
  let ?ws2 = "[\<lparr>epoch = 5\<rparr>, \<lparr>epoch = 5\<rparr>, \<lparr>epoch = 6\<rparr>, \<lparr>epoch = 7\<rparr>] :: condvar_no_spurious list"
  have same: "\<forall>w \<in> set ?ws1. epoch (id w) = epoch (id ?s)"
    by simp
  have blocked: "condvar_wait id ?s ?ws1 = None"
    using condvar_wait_no_spurious [of ?ws1 id ?s, THEN conjunct1] same by (rule mp)
  have ret: "condvar_wait id ?s ?ws2 = Some (\<lparr>epoch = 6\<rparr>, [\<lparr>epoch = 7\<rparr>])"
    by (simp add: condvar_wait_def)
  have changed: "epoch (id (\<lparr>epoch = 6\<rparr> :: condvar_no_spurious)) \<noteq> epoch (id ?s)"
    using condvar_wait_no_spurious [of ?ws2 id ?s, THEN conjunct2, rule_format, OF ret]
    by (rule conjunct1)
  from blocked ret changed show ?thesis
    by (intro conjI)
qed

section \<open>Theorems: bounded queue\<close>

lemma smod_nonneg: "0 \<le> k \<Longrightarrow> 0 < l \<Longrightarrow> k smod l = k mod (l::int)"
  by (simp add: signed_modulo_int_def sgn_if)

lemma condvar_wait_result:
  "condvar_wait cvar s ws = Some (s', ws') \<Longrightarrow> s' \<in> set ws \<and> set ws' \<subseteq> set ws"
proof -
  assume "condvar_wait cvar s ws = Some (s', ws')"
  then have d: "dropWhile (\<lambda>w. epoch (cvar w) = epoch (cvar s)) ws = s' # ws'"
    by (auto simp: condvar_wait_eq split: list.splits)
  have "set (s' # ws') \<subseteq> set ws"
    unfolding d [symmetric] by (auto dest: set_dropWhileD)
  then show ?thesis by simp
qed

lemma while_full_result:
  "while_full q ws = Some (q1, ws1) \<Longrightarrow>
     count q1 \<noteq> SIZE \<and> (q1 = q \<or> q1 \<in> set ws) \<and> set ws1 \<subseteq> set ws"
proof (induction q ws rule: while_full.induct)
  case (1 q ws)
  show ?case
  proof (cases "count q = SIZE")
    case False
    with "1.prems" show ?thesis by (simp add: while_full.simps [of q ws])
  next
    case True
    with "1.prems" obtain q' ws' where w: "condvar_wait not_full q ws = Some (q', ws')"
      and r: "while_full q' ws' = Some (q1, ws1)"
      by (auto simp: while_full.simps [of q ws] split: option.splits)
    from "1.IH" [OF True w refl r] condvar_wait_result [OF w] show ?thesis
      by auto
  qed
qed

lemma while_empty_result:
  "while_empty q ws = Some (q1, ws1) \<Longrightarrow>
     count q1 \<noteq> 0 \<and> (q1 = q \<or> q1 \<in> set ws) \<and> set ws1 \<subseteq> set ws"
proof (induction q ws rule: while_empty.induct)
  case (1 q ws)
  show ?case
  proof (cases "count q = 0")
    case False
    with "1.prems" show ?thesis by (simp add: while_empty.simps [of q ws])
  next
    case True
    with "1.prems" obtain q' ws' where w: "condvar_wait not_empty q ws = Some (q', ws')"
      and r: "while_empty q' ws' = Some (q1, ws1)"
      by (auto simp: while_empty.simps [of q ws] split: option.splits)
    from "1.IH" [OF True w refl r] condvar_wait_result [OF w] show ?thesis
      by auto
  qed
qed

lemma bq_inv_init: "length raw = nat SIZE \<Longrightarrow> bq_inv (bounded_queue_init raw)"
  by (simp add: bq_inv_def bounded_queue_init_def SIZE_def)

lemma bq_inv_enqueue:
  assumes q: "bq_inv q" and ws: "\<And>w. w \<in> set ws \<Longrightarrow> bq_inv w"
    and e: "bounded_queue_enqueue v q ws = Some r"
  shows "\<exists>q'. r = Inr q' \<and> bq_inv q'"
proof -
  from e obtain q1 ws1 where w: "while_full q ws = Some (q1, ws1)"
    by (auto simp: bounded_queue_enqueue_def split: option.splits)
  from while_full_result [OF w] q ws have q1: "bq_inv q1" and nf: "count q1 \<noteq> SIZE"
    by auto
  from q1 have t: "0 \<le> tail q1" "tail q1 < SIZE" "nat (tail q1) < length (buffer q1)"
    by (auto simp: bq_inv_def SIZE_def)
  have m: "(tail q1 + 1) smod SIZE = (head q1 + (count q1 + 1)) mod SIZE"
  proof -
    have "(tail q1 + 1) smod SIZE = (tail q1 + 1) mod SIZE"
      using t by (intro smod_nonneg) (auto simp: SIZE_def)
    also have "\<dots> = ((head q1 + count q1) mod SIZE + 1) mod SIZE"
      using q1 by (simp add: bq_inv_def)
    also have "\<dots> = (head q1 + (count q1 + 1)) mod SIZE"
      by (simp add: mod_simps add.assoc)
    finally show ?thesis .
  qed
  from e w t have r: "r = Inr (q1\<lparr>buffer := (buffer q1)[nat (tail q1) := v],
                            tail := (tail q1 + 1) smod SIZE,
                            count := count q1 + 1,
                            not_empty := condvar_signal (not_empty q1)\<rparr>)"
    by (simp add: bounded_queue_enqueue_def)
  moreover have "bq_inv (q1\<lparr>buffer := (buffer q1)[nat (tail q1) := v],
                            tail := (tail q1 + 1) smod SIZE,
                            count := count q1 + 1,
                            not_empty := condvar_signal (not_empty q1)\<rparr>)"
    using q1 nf m by (simp add: bq_inv_def)
  ultimately show ?thesis by blast
qed

lemma bq_inv_dequeue:
  assumes q: "bq_inv q" and ws: "\<And>w. w \<in> set ws \<Longrightarrow> bq_inv w"
    and e: "bounded_queue_dequeue q ws = Some r"
  shows "\<exists>v q'. r = Inr (v, q') \<and> bq_inv q'"
proof -
  from e obtain q1 ws1 where w: "while_empty q ws = Some (q1, ws1)"
    by (auto simp: bounded_queue_dequeue_def split: option.splits)
  from while_empty_result [OF w] q ws have q1: "bq_inv q1" and ne: "count q1 \<noteq> 0"
    by auto
  from q1 have h: "0 \<le> head q1" "head q1 < SIZE" "nat (head q1) < length (buffer q1)"
    by (auto simp: bq_inv_def SIZE_def)
  have hm: "(head q1 + 1) smod SIZE = (head q1 + 1) mod SIZE"
    using h by (intro smod_nonneg) (auto simp: SIZE_def)
  have m: "tail q1 = ((head q1 + 1) smod SIZE + (count q1 - 1)) mod SIZE"
  proof -
    have "((head q1 + 1) mod SIZE + (count q1 - 1)) mod SIZE = (head q1 + 1 + (count q1 - 1)) mod SIZE"
      by (simp add: mod_simps)
    also have "\<dots> = (head q1 + count q1) mod SIZE"
      by simp
    finally show ?thesis using q1 hm by (simp add: bq_inv_def)
  qed
  have b: "0 \<le> (head q1 + 1) smod SIZE" "(head q1 + 1) smod SIZE < SIZE"
    unfolding hm by (simp_all add: SIZE_def)
  from e w h have r: "r = Inr (buffer q1 ! nat (head q1),
                          q1\<lparr>head := (head q1 + 1) smod SIZE,
                             count := count q1 - 1,
                             not_full := condvar_signal (not_full q1)\<rparr>)"
    by (simp add: bounded_queue_dequeue_def)
  moreover have "bq_inv (q1\<lparr>head := (head q1 + 1) smod SIZE,
                             count := count q1 - 1,
                             not_full := condvar_signal (not_full q1)\<rparr>)"
    using q1 ne m b by (simp add: bq_inv_def)
  ultimately show ?thesis by blast
qed

lemma bq_reachable_inv: "bq_reachable q \<Longrightarrow> bq_inv q"
proof (induction rule: bq_reachable.induct)
  case (bq_init raw)
  then show ?case by (rule bq_inv_init)
next
  case (bq_enqueue q ws v q')
  from bq_inv_enqueue [OF bq_enqueue.IH(1) bq_enqueue.IH(2) bq_enqueue.hyps(3)]
  show ?case by simp
next
  case (bq_dequeue q ws v q')
  from bq_inv_dequeue [OF bq_dequeue.IH(1) bq_dequeue.IH(2) bq_dequeue.hyps(3)]
  show ?case by simp
qed

text \<open>
  Claim C8. Starting from the constructed queue (\<open>head = tail = count = 0\<close>), every
  completed \<^verbatim>\<open>enqueue\<close> and every completed \<^verbatim>\<open>dequeue\<close> leaves a state with
  \<open>0 \<le> count \<le> SIZE\<close> and \<open>tail = (head + count) mod SIZE\<close>, where \<open>SIZE = 50\<close>.
\<close>

theorem bounded_queue_invariants:
  "bq_reachable q \<Longrightarrow>
     SIZE = 50 \<and> 0 \<le> count q \<and> count q \<le> SIZE \<and> tail q = (head q + count q) mod SIZE"
  by (drule bq_reachable_inv) (simp add: bq_inv_def SIZE_def)

theorem bounded_queue_invariants_witness:
  "bq_reachable
     \<lparr>buffer = (replicate 50 0)[0 := 7], head = 1, tail = 1, count = 0,
      not_full = \<lparr>epoch = 1\<rparr>, not_empty = \<lparr>epoch = 1\<rparr>\<rparr> \<and>
   SIZE = 50 \<and>
   tail \<lparr>buffer = (replicate 50 0)[0 := 7], head = 1, tail = 1, count = 0,
      not_full = \<lparr>epoch = 1\<rparr>, not_empty = \<lparr>epoch = 1\<rparr>\<rparr> = (1 + 0) mod SIZE"
proof -
  let ?q0 = "bounded_queue_init (replicate 50 0)"
  let ?q1 = "\<lparr>buffer = (replicate 50 0)[0 := 7], head = 0, tail = 1, count = 1,
      not_full = \<lparr>epoch = 0\<rparr>, not_empty = \<lparr>epoch = 1\<rparr>\<rparr>"
  let ?q2 = "\<lparr>buffer = (replicate 50 0)[0 := 7], head = 1, tail = 1, count = 0,
      not_full = \<lparr>epoch = 1\<rparr>, not_empty = \<lparr>epoch = 1\<rparr>\<rparr>"
  have e: "bounded_queue_enqueue 7 ?q0 [] = Some (Inr ?q1)"
    by (simp add: bounded_queue_enqueue_def bounded_queue_init_def while_full.simps SIZE_def
        condvar_init_def condvar_signal_def signed_modulo_int_def)
  have d: "bounded_queue_dequeue ?q1 [] = Some (Inr (7, ?q2))"
    by (simp add: bounded_queue_dequeue_def while_empty.simps SIZE_def
        condvar_signal_def signed_modulo_int_def)
  have r0: "bq_reachable ?q0"
    by (rule bq_init) (simp add: SIZE_def)
  have r1: "bq_reachable ?q1"
    by (rule bq_enqueue [OF r0 _ e]) simp
  have r2: "bq_reachable ?q2"
    by (rule bq_dequeue [OF r1 _ d]) simp
  from r2 bounded_queue_invariants [OF r2] show ?thesis
    by simp
qed

section \<open>Theorems: Treiber stack\<close>

text \<open>
  A spurious failure of the compare-and-swap repeats the loop body on the same state,
  so the effect of \<^verbatim>\<open>push\<close> and \<^verbatim>\<open>pop\<close> in a run without interference does not
  depend on the number of spurious failures.
\<close>

lemma treiber_stack_push_loop_eq:
  "treiber_stack_push_loop sp n s =
     s\<lparr>ts_top := Some n,
       ts_heap := (ts_heap s)[n := (ts_heap s ! n)\<lparr>node_next := ts_top s\<rparr>]\<rparr>"
proof (induction sp arbitrary: s)
  case Nil
  show ?case
    by (subst treiber_stack_push_loop.simps)
       (simp add: compare_exchange_weak_def spurious_def)
next
  case (Cons b sp)
  let ?h = "(ts_heap s)[n := (ts_heap s ! n)\<lparr>node_next := ts_top s\<rparr>]"
  have idem: "(ts_heap s)[n := (?h ! n)\<lparr>node_next := ts_top s\<rparr>] = ?h"
    by (cases "n < length (ts_heap s)") (simp_all add: list_update_beyond)
  show ?case
  proof (cases b)
    case False
    then show ?thesis
      by (subst treiber_stack_push_loop.simps)
         (simp add: compare_exchange_weak_def spurious_def)
  next
    case True
    then have "treiber_stack_push_loop (b # sp) n s =
        treiber_stack_push_loop sp n (s\<lparr>ts_heap := ?h, ts_top := ts_top s\<rparr>)"
      by (subst treiber_stack_push_loop.simps)
         (simp add: compare_exchange_weak_def spurious_def)
    also have "\<dots> = s\<lparr>ts_top := Some n, ts_heap := ?h\<rparr>"
      by (simp add: Cons.IH idem)
    finally show ?thesis .
  qed
qed

lemma treiber_stack_push_eq:
  "treiber_stack_push sp v s =
     \<lparr>ts_top = Some (length (ts_heap s)),
      ts_heap = ts_heap s @ [\<lparr>node_value = v, node_next = ts_top s\<rparr>]\<rparr>"
  by (simp add: treiber_stack_push_def new_node_def treiber_stack_push_loop_eq)

lemma treiber_stack_pop_eq:
  "treiber_stack_pop sp s =
     (case ts_top s of
        None \<Rightarrow> (Inl Empty, s)
      | Some a \<Rightarrow>
          if a < length (ts_heap s)
          then (Inr (node_value (ts_heap s ! a)), s\<lparr>ts_top := node_next (ts_heap s ! a)\<rparr>)
          else (Inl InvalidPointer, s))"
proof (induction sp)
  case Nil
  show ?case
    by (subst treiber_stack_pop.simps)
       (simp add: compare_exchange_weak_def spurious_def split: option.splits)
next
  case (Cons b sp)
  show ?case
  proof (cases "ts_top s")
    case None
    then show ?thesis
      by (subst treiber_stack_pop.simps) simp
  next
    case (Some a)
    have same: "s\<lparr>ts_top := Some a\<rparr> = s"
      using Some by (cases s) simp
    show ?thesis
      using Some Cons.IH
      by (subst treiber_stack_pop.simps)
         (simp add: compare_exchange_weak_def spurious_def same)
  qed
qed

text \<open>
  Claim C1. On a freshly constructed Treiber stack used by one thread,
  \<^verbatim>\<open>push(1); push(2); push(3)\<close> followed by four calls of \<^verbatim>\<open>pop\<close> gives 3, then 2, then
  1, and the fourth call fails with the empty error; this holds whatever spurious
  failures the compare-and-swaps of the seven calls have.
\<close>

theorem treiber_stack_push3_pop4:
  "(case treiber_stack_pop sp4
           (treiber_stack_push sp3 3
             (treiber_stack_push sp2 2
               (treiber_stack_push sp1 1 treiber_stack_init))) of
      (r1, s1) \<Rightarrow>
        (case treiber_stack_pop sp5 s1 of
           (r2, s2) \<Rightarrow>
             (case treiber_stack_pop sp6 s2 of
                (r3, s3) \<Rightarrow>
                  (case treiber_stack_pop sp7 s3 of
                     (r4, s4) \<Rightarrow> [r1, r2, r3, r4]))))
   = [Inr 3, Inr 2, Inr 1, Inl Empty]"
  by (simp add: treiber_stack_push_eq treiber_stack_pop_eq treiber_stack_init_def)

section \<open>Theorems: Michael and Scott queue\<close>

subsection \<open>Paths in the heap\<close>

lemma path_append:
  "path h p (as @ bs) q \<longleftrightarrow> (\<exists>r. path h p as r \<and> path h r bs q)"
  by (induction as arbitrary: p) auto

lemma path_bound: "path h p as q \<Longrightarrow> a \<in> set as \<Longrightarrow> a < length h"
  by (induction as arbitrary: p) auto

lemma path_hd: "path h p as q \<Longrightarrow> as \<noteq> [] \<Longrightarrow> p = Some (hd as)"
  by (cases as) auto

lemma path_last:
  assumes "path h p as None" and "as \<noteq> []"
  shows "path h p (butlast as) (Some (last as)) \<and> last as < length h \<and>
         node_next (h ! last as) = None"
proof -
  from assms(2) have "as = butlast as @ [last as]" by simp
  with assms(1) have "path h p (butlast as @ [last as]) None" by simp
  then show ?thesis unfolding path_append by auto
qed

lemma path_nth_next:
  "path h p as q \<Longrightarrow> Suc i < length as \<Longrightarrow> node_next (h ! (as ! i)) = Some (as ! Suc i)"
proof (induction as arbitrary: p i)
  case Nil
  then show ?case by simp
next
  case (Cons a as)
  show ?case
  proof (cases i)
    case 0
    with Cons.prems show ?thesis by (cases as) auto
  next
    case (Suc j)
    with Cons.prems Cons.IH [of "node_next (h ! a)" j] show ?thesis by simp
  qed
qed

lemma path_same_next:
  assumes "path h p as q"
    and "\<And>a. a \<in> set as \<Longrightarrow> a < length h' \<and> node_next (h' ! a) = node_next (h ! a)"
  shows "path h' p as q"
  using assms by (induction as arbitrary: p) auto

lemma path_grow: "path h p as q \<Longrightarrow> path (h @ [x]) p as q"
  by (rule path_same_next) (auto simp: nth_append dest: path_bound)

subsection \<open>Enqueue\<close>

lemma msqueue_enqueue_loop_step_at_end:
  assumes "as \<noteq> []" and "path (msq_heap s) (msq_head s) as None"
    and "msq_tail s = Some (last as)"
  shows "msqueue_enqueue_loop sp n s =
           (if spurious sp then msqueue_enqueue_loop (tl sp) n s
            else Some (Inr (s\<lparr>msq_heap := (msq_heap s)[last as :=
                          (msq_heap s ! last as)\<lparr>node_next := Some n\<rparr>],
                        msq_tail := (if spurious (tl sp) then Some (last as) else Some n)\<rparr>)))"
proof -
  from path_last [OF assms(2) assms(1)]
  have l: "last as < length (msq_heap s)" "node_next (msq_heap s ! last as) = None"
    by simp_all
  have same: "s\<lparr>msq_heap := (msq_heap s)[last as :=
                 (msq_heap s ! last as)\<lparr>node_next := None\<rparr>]\<rparr> = s"
    using l by (simp add: list_update_same_conv)
  show ?thesis
    by (subst msqueue_enqueue_loop.simps)
       (simp add: assms(3) l compare_exchange_weak_def same Let_def)
qed

lemma msqueue_enqueue_loop_at_end:
  assumes "as \<noteq> []" and "path (msq_heap s) (msq_head s) as None"
    and "msq_tail s = Some (last as)"
  shows "\<exists>t. msqueue_enqueue_loop sp n s =
           Some (Inr (s\<lparr>msq_heap := (msq_heap s)[last as :=
                          (msq_heap s ! last as)\<lparr>node_next := Some n\<rparr>],
                        msq_tail := t\<rparr>)) \<and>
         (t = Some n \<or> t = Some (last as))"
proof (induction sp)
  case Nil
  show ?case
    by (subst msqueue_enqueue_loop_step_at_end [OF assms]) (auto simp: spurious_def)
next
  case (Cons b sp)
  show ?case
  proof (cases b)
    case True
    then have "msqueue_enqueue_loop (b # sp) n s = msqueue_enqueue_loop sp n s"
      by (subst msqueue_enqueue_loop_step_at_end [OF assms]) (simp add: spurious_def)
    with Cons.IH show ?thesis by simp
  next
    case False
    then show ?thesis
      by (subst msqueue_enqueue_loop_step_at_end [OF assms]) (auto simp: spurious_def)
  qed
qed


lemma msqueue_enqueue_loop_step_lagging:
  assumes "path (msq_heap s) (msq_head s) as None" and "2 \<le> length as"
    and "msq_tail s = Some (as ! (length as - 2))"
  shows "msqueue_enqueue_loop sp n s =
           msqueue_enqueue_loop (tl sp) n
             (if spurious sp then s else s\<lparr>msq_tail := Some (last as)\<rparr>)"
proof -
  let ?l = "as ! (length as - 2)"
  from assms(2) have mem: "?l \<in> set as" by simp
  from path_bound [OF assms(1) mem] have l: "?l < length (msq_heap s)" .
  from assms(2) have "Suc (length as - 2) < length as" by simp
  from path_nth_next [OF assms(1) this]
  have "node_next (msq_heap s ! ?l) = Some (as ! Suc (length as - 2))" .
  moreover have "Suc (length as - 2) = length as - 1"
    using assms(2) by simp
  moreover have "as \<noteq> []"
    using assms(2) by auto
  ultimately have nx: "node_next (msq_heap s ! ?l) = Some (last as)"
    by (simp add: last_conv_nth)
  have same: "s\<lparr>msq_tail := Some ?l\<rparr> = s"
    using assms(3) by (cases s) simp
  show ?thesis
    by (subst msqueue_enqueue_loop.simps)
       (simp add: assms(3) l nx compare_exchange_weak_def same Let_def)
qed

lemma msqueue_enqueue_loop_lagging:
  assumes "path (msq_heap s) (msq_head s) as None" and "2 \<le> length as"
    and "msq_tail s = Some (as ! (length as - 2))"
  shows "\<exists>t. msqueue_enqueue_loop sp n s =
           Some (Inr (s\<lparr>msq_heap := (msq_heap s)[last as :=
                          (msq_heap s ! last as)\<lparr>node_next := Some n\<rparr>],
                        msq_tail := t\<rparr>)) \<and>
         (t = Some n \<or> t = Some (last as))"
proof -
  let ?s' = "s\<lparr>msq_tail := Some (last as)\<rparr>"
  from assms(2) have ne: "as \<noteq> []" by auto
  have advanced: "\<exists>t. msqueue_enqueue_loop sp' n ?s' =
           Some (Inr (s\<lparr>msq_heap := (msq_heap s)[last as :=
                          (msq_heap s ! last as)\<lparr>node_next := Some n\<rparr>],
                        msq_tail := t\<rparr>)) \<and>
         (t = Some n \<or> t = Some (last as))" for sp'
    using msqueue_enqueue_loop_at_end [of as ?s' sp' n] ne assms(1) by simp
  show ?thesis
  proof (induction sp)
    case Nil
    have "msqueue_enqueue_loop [] n s = msqueue_enqueue_loop [] n ?s'"
      by (subst msqueue_enqueue_loop_step_lagging [OF assms]) (simp add: spurious_def)
    with advanced [of "[]"] show ?case by simp
  next
    case (Cons b sp)
    show ?case
    proof (cases b)
      case True
      then have "msqueue_enqueue_loop (b # sp) n s = msqueue_enqueue_loop sp n s"
        by (subst msqueue_enqueue_loop_step_lagging [OF assms]) (simp add: spurious_def)
      with Cons.IH show ?thesis by simp
    next
      case False
      then have "msqueue_enqueue_loop (b # sp) n s = msqueue_enqueue_loop sp n ?s'"
        by (subst msqueue_enqueue_loop_step_lagging [OF assms]) (simp add: spurious_def)
      with advanced [of sp] show ?thesis by simp
    qed
  qed
qed

lemma msqueue_enqueue_loop_chain:
  assumes "msq_chain s as"
  shows "\<exists>t. msqueue_enqueue_loop sp n s =
           Some (Inr (s\<lparr>msq_heap := (msq_heap s)[last as :=
                          (msq_heap s ! last as)\<lparr>node_next := Some n\<rparr>],
                        msq_tail := t\<rparr>)) \<and>
         (t = Some n \<or> t = Some (last as))"
  using assms msqueue_enqueue_loop_at_end [of as s sp n]
    msqueue_enqueue_loop_lagging [of s as sp n]
  unfolding msq_chain_def by blast

lemma msq_chain_link:
  assumes c: "msq_chain s as" and n: "n < length (msq_heap s)" "n \<notin> set as"
    "node_next (msq_heap s ! n) = None" and t: "t = Some n \<or> t = Some (last as)"
  defines "s' \<equiv> s\<lparr>msq_heap := (msq_heap s)[last as :=
                          (msq_heap s ! last as)\<lparr>node_next := Some n\<rparr>],
                        msq_tail := t\<rparr>"
  shows "msq_chain s' (as @ [n]) \<and>
         msq_contents s' (as @ [n]) = msq_contents s as @ [node_value (msq_heap s ! n)]"
proof -
  let ?h = "msq_heap s" and ?l = "last as"
  let ?h' = "?h[?l := (?h ! ?l)\<lparr>node_next := Some n\<rparr>]"
  from c have ne: "as \<noteq> []" and d: "distinct as" and p: "path ?h (msq_head s) as None"
    by (simp_all add: msq_chain_def)
  from path_last [OF p ne] have pb: "path ?h (msq_head s) (butlast as) (Some ?l)"
    and l: "?l < length ?h" by simp_all
  from ne have lmem: "?l \<in> set as" by simp
  with n(2) have nl: "n \<noteq> ?l" by auto
  obtain bs where bs: "as = bs @ [?l]"
    using ne by (cases as rule: rev_cases) auto
  from d have nb: "?l \<notin> set (butlast as)"
    by (subst (asm) bs, subst (2) bs) simp
  have "a < length ?h' \<and> node_next (?h' ! a) = node_next (?h ! a)"
    if "a \<in> set (butlast as)" for a
  proof -
    from that nb have "?l \<noteq> a" by auto
    moreover from that have "a \<in> set as" by (rule in_set_butlastD)
    ultimately show ?thesis using path_bound [OF p] by simp
  qed
  from path_same_next [OF pb this]
  have pb': "path ?h' (msq_head s) (butlast as) (Some ?l)" .
  have "path ?h' (Some ?l) [?l, n] None"
    using l n nl by simp
  with pb' have "path ?h' (msq_head s) (butlast as @ [?l, n]) None"
    unfolding path_append by blast
  moreover have "butlast as @ [?l, n] = as @ [n]"
    using ne by simp
  ultimately have p': "path ?h' (msq_head s) (as @ [n]) None" by simp
  have tl: "msq_tail s' = Some (last (as @ [n])) \<or>
      (2 \<le> length (as @ [n]) \<and> msq_tail s' = Some ((as @ [n]) ! (length (as @ [n]) - 2)))"
  proof -
    from ne have "0 < length as" by simp
    then show ?thesis
      using t ne by (auto simp: s'_def nth_append last_conv_nth Suc_le_eq)
  qed
  have v: "node_value (?h' ! a) = node_value (?h ! a)" if "a < length ?h" for a
    using that by (cases "a = ?l") simp_all
  have "map (\<lambda>a. node_value (?h' ! a)) (tl as @ [n]) =
      map (\<lambda>a. node_value (?h ! a)) (tl as @ [n])"
    using path_bound [OF p] n(1) v by (auto dest: list.set_sel(2) [OF ne])
  then have "msq_contents s' (as @ [n]) = msq_contents s as @ [node_value (?h ! n)]"
    using ne by (simp add: msq_contents_def s'_def)
  moreover have "msq_chain s' (as @ [n])"
    using p' d n(2) tl by (simp add: msq_chain_def s'_def)
  ultimately show ?thesis by simp
qed


lemma msqueue_enqueue_chain:
  assumes c: "msq_chain s as"
  shows "\<exists>s'. msqueue_enqueue sp v s = Some (Inr s') \<and>
           msq_chain s' (as @ [length (msq_heap s)]) \<and>
           msq_contents s' (as @ [length (msq_heap s)]) = msq_contents s as @ [v]"
proof -
  let ?h = "msq_heap s" and ?n = "length (msq_heap s)"
  let ?hn = "?h @ [\<lparr>node_value = v, node_next = None\<rparr>]"
  let ?sn = "s\<lparr>msq_heap := ?hn\<rparr>"
  from c have ne: "as \<noteq> []" and d: "distinct as" and p: "path ?h (msq_head s) as None"
    and tl: "msq_tail s = Some (last as) \<or>
      (2 \<le> length as \<and> msq_tail s = Some (as ! (length as - 2)))"
    by (simp_all add: msq_chain_def)
  have c0: "msq_chain ?sn as"
    using ne d tl path_grow [OF p] by (simp add: msq_chain_def)
  have fresh: "?n \<notin> set as"
    using path_bound [OF p] by auto
  have same: "msq_contents ?sn as = msq_contents s as"
    using path_bound [OF p] ne
    by (auto simp: msq_contents_def nth_append dest: list.set_sel(2))
  from msqueue_enqueue_loop_chain [OF c0, of sp ?n] obtain t where
    run: "msqueue_enqueue_loop sp ?n ?sn =
           Some (Inr (?sn\<lparr>msq_heap := (msq_heap ?sn)[last as :=
                          (msq_heap ?sn ! last as)\<lparr>node_next := Some ?n\<rparr>],
                        msq_tail := t\<rparr>))"
    and t: "t = Some ?n \<or> t = Some (last as)"
    by blast
  have "?n < length (msq_heap ?sn)" "?n \<notin> set as" "node_next (msq_heap ?sn ! ?n) = None"
    using fresh by simp_all
  from msq_chain_link [OF c0 this t] same run show ?thesis
    by (simp add: msqueue_enqueue_def new_node_def)
qed

subsection \<open>Dequeue\<close>

lemma msqueue_dequeue_empty:
  assumes "msq_chain s [f]"
  shows "msqueue_dequeue sp s = Some (Inl Empty, s)"
  using assms
  by (subst msqueue_dequeue.simps) (auto simp: msq_chain_def Let_def)

lemma msqueue_dequeue_step_advance:
  assumes "path (msq_heap s) (msq_head s) (f # x # rest) None"
    and "msq_tail s \<noteq> Some f"
  shows "msqueue_dequeue sp s =
           (if spurious sp then msqueue_dequeue (tl sp) s
            else Some (Inr (node_value (msq_heap s ! x)), s\<lparr>msq_head := Some x\<rparr>))"
proof -
  from assms(1) have h: "msq_head s = Some f" "f < length (msq_heap s)"
    "node_next (msq_heap s ! f) = Some x" "x < length (msq_heap s)"
    by simp_all
  have same: "s\<lparr>msq_head := Some f\<rparr> = s"
    using h(1) by (cases s) simp
  from assms(2) have ne: "Some f \<noteq> msq_tail s" by auto
  show ?thesis
    by (subst msqueue_dequeue.simps)
       (simp add: h ne compare_exchange_weak_def same Let_def)
qed

lemma msqueue_dequeue_advance:
  assumes "path (msq_heap s) (msq_head s) (f # x # rest) None"
    and "msq_tail s \<noteq> Some f"
  shows "msqueue_dequeue sp s =
           Some (Inr (node_value (msq_heap s ! x)), s\<lparr>msq_head := Some x\<rparr>)"
proof (induction sp)
  case Nil
  show ?case
    by (subst msqueue_dequeue_step_advance [OF assms]) (simp add: spurious_def)
next
  case (Cons b sp)
  then show ?case
    by (subst msqueue_dequeue_step_advance [OF assms]) (simp add: spurious_def)
qed

lemma msqueue_dequeue_step_help:
  assumes "path (msq_heap s) (msq_head s) (f # x # rest) None"
    and "msq_tail s = Some f"
  shows "msqueue_dequeue sp s =
           msqueue_dequeue (tl sp) (if spurious sp then s else s\<lparr>msq_tail := Some x\<rparr>)"
proof -
  from assms(1) have h: "msq_head s = Some f" "f < length (msq_heap s)"
    "node_next (msq_heap s ! f) = Some x"
    by simp_all
  have same: "s\<lparr>msq_tail := Some f\<rparr> = s"
    using assms(2) by (cases s) simp
  show ?thesis
    by (subst msqueue_dequeue.simps)
       (simp add: h assms(2) compare_exchange_weak_def same Let_def)
qed

lemma msqueue_dequeue_help:
  assumes "path (msq_heap s) (msq_head s) (f # x # rest) None"
    and "msq_tail s = Some f" and "f \<noteq> x"
  shows "msqueue_dequeue sp s =
           Some (Inr (node_value (msq_heap s ! x)), s\<lparr>msq_head := Some x, msq_tail := Some x\<rparr>)"
proof -
  let ?s' = "s\<lparr>msq_tail := Some x\<rparr>"
  have advanced: "msqueue_dequeue sp' ?s' =
      Some (Inr (node_value (msq_heap s ! x)), s\<lparr>msq_head := Some x, msq_tail := Some x\<rparr>)"
    for sp'
    using msqueue_dequeue_advance [of ?s' f x rest sp'] assms(1,3) by simp
  show ?thesis
  proof (induction sp)
    case Nil
    have "msqueue_dequeue [] s = msqueue_dequeue [] ?s'"
      by (subst msqueue_dequeue_step_help [OF assms(1,2)]) (simp add: spurious_def)
    with advanced show ?case by simp
  next
    case (Cons b sp)
    have "msqueue_dequeue (b # sp) s = msqueue_dequeue sp (if b then s else ?s')"
      by (subst msqueue_dequeue_step_help [OF assms(1,2)]) (simp add: spurious_def)
    with advanced Cons.IH show ?case by simp
  qed
qed

lemma msqueue_dequeue_nonempty:
  assumes c: "msq_chain s (f # x # rest)"
  shows "\<exists>s'. msqueue_dequeue sp s = Some (Inr (node_value (msq_heap s ! x)), s') \<and>
           msq_chain s' (x # rest) \<and>
           msq_contents s' (x # rest) = tl (msq_contents s (f # x # rest))"
proof -
  let ?as = "f # x # rest"
  from c have d: "distinct ?as" and p: "path (msq_heap s) (msq_head s) ?as None"
    and tl: "msq_tail s = Some (last ?as) \<or>
      (2 \<le> length ?as \<and> msq_tail s = Some (?as ! (length ?as - 2)))"
    by (simp_all add: msq_chain_def)
  from p have p': "path (msq_heap s) (Some x) (x # rest) None" by simp
  from d have fx: "f \<noteq> x" and d': "distinct (x # rest)" by auto
  show ?thesis
  proof (cases "msq_tail s = Some f")
    case True
    have "last ?as \<noteq> f"
      using d by (auto simp: last_conv_nth nth_Cons split: nat.splits if_splits)
    with True tl have "?as ! (length ?as - 2) = f" by auto
    with d have "rest = []"
      by (cases rest) (auto simp: nth_Cons split: nat.splits)
    with msqueue_dequeue_help [OF p True fx, of sp] p' d' show ?thesis
      by (auto simp: msq_chain_def msq_contents_def)
  next
    case False
    have "msq_tail s = Some (last (x # rest)) \<or>
      (2 \<le> length (x # rest) \<and> msq_tail s = Some ((x # rest) ! (length (x # rest) - 2)))"
    proof (cases rest)
      case Nil
      with tl False show ?thesis by auto
    next
      case (Cons y ys)
      with tl show ?thesis by auto
    qed
    with msqueue_dequeue_advance [OF p False, of sp] p' d' show ?thesis
      by (auto simp: msq_chain_def msq_contents_def)
  qed
qed


text \<open>A call of \<^verbatim>\<open>dequeue\<close> that throws has changed nothing, on any heap: it
  throws only when \<^verbatim>\<open>head->next\<close> is null, and then no earlier iteration has
  moved \<^verbatim>\<open>tail\<close>.\<close>

lemma msqueue_dequeue_empty_next:
  assumes "msqueue_dequeue sp s = Some r"
  shows "fst r = Inl Empty \<longrightarrow>
     snd r = s \<and> (\<exists>f. msq_head s = Some f \<and> f < length (msq_heap s) \<and>
                      node_next (msq_heap s ! f) = None)"
proof (rule msqueue_dequeue.raw_induct
    [where P = "\<lambda>sp s r. fst r = Inl Empty \<longrightarrow>
     snd r = s \<and> (\<exists>f. msq_head s = Some f \<and> f < length (msq_heap s) \<and>
                      node_next (msq_heap s ! f) = None)", OF _ assms])
  fix deq :: "bool list \<Rightarrow> msqueue \<Rightarrow> ((error + int) \<times> msqueue) option"
    and sp s r
  assume IH: "\<And>sp s r. deq sp s = Some r \<Longrightarrow> fst r = Inl Empty \<longrightarrow>
     snd r = s \<and> (\<exists>f. msq_head s = Some f \<and> f < length (msq_heap s) \<and>
                      node_next (msq_heap s ! f) = None)"
  assume body: "(let first = msq_head s; last = msq_tail s
      in case first of None \<Rightarrow> Some (Inl InvalidPointer, s)
         | Some f \<Rightarrow>
             if \<not> f < length (msq_heap s) then Some (Inl InvalidPointer, s)
             else let next = node_next (msq_heap s ! f)
                  in if first = msq_head s
                     then if first = last
                          then case next of None \<Rightarrow> Some (Inl Empty, s)
                               | Some x \<Rightarrow>
                                   case compare_exchange_weak (spurious sp)
   (msq_tail s) last next of
                                   (x, t) \<Rightarrow>
                                     deq (tl sp)
(s\<lparr>msq_tail := t\<rparr>)
                          else case next of
                               None \<Rightarrow> Some (Inl InvalidPointer, s)
                               | Some nx \<Rightarrow>
                                   if \<not> nx < length (msq_heap s)
                                   then Some (Inl InvalidPointer, s)
                                   else let v = node_value (msq_heap s ! nx)
  in case compare_exchange_weak (spurious sp) (msq_head s) first next of
     (advanced, h) \<Rightarrow>
       if advanced then Some (Inr v, s\<lparr>msq_head := h\<rparr>)
       else deq (tl sp) (s\<lparr>msq_head := h\<rparr>)
                     else deq sp s) =
     Some r"
  have same: "s\<lparr>msq_head := msq_head s\<rparr> = s" by simp
  show "fst r = Inl Empty \<longrightarrow>
     snd r = s \<and> (\<exists>f. msq_head s = Some f \<and> f < length (msq_heap s) \<and>
                      node_next (msq_heap s ! f) = None)"
  proof (cases "msq_head s")
    case None
    with body show ?thesis by auto
  next
    case (Some f)
    note hd = this
    show ?thesis
    proof (cases "f < length (msq_heap s)")
      case False
      with body hd show ?thesis by auto
    next
      case True
      note valid = this
      show ?thesis
      proof (cases "node_next (msq_heap s ! f)")
        case None
        with body hd valid show ?thesis
          by (auto simp: Let_def split: if_splits)
      next
        case (Some x)
        note nx = this
        show ?thesis
        proof (cases "msq_tail s = Some f")
          case True
          with body hd valid nx obtain t where "deq (tl sp) (s\<lparr>msq_tail := t\<rparr>) = Some r"
            by (auto simp: Let_def split: prod.splits)
          from IH [OF this] hd nx show ?thesis by auto
        next
          case False
          show ?thesis
          proof (cases "x < length (msq_heap s) \<and> spurious sp")
            case True
            have "s\<lparr>msq_head := Some f\<rparr> = s"
              using hd by (cases s) simp
            with body hd valid nx False True have "deq (tl sp) s = Some r"
              by (auto simp: Let_def compare_exchange_weak_def split: if_splits)
            from IH [OF this] hd nx show ?thesis by auto
          next
            case spur: False
            with body hd valid nx False show ?thesis
              by (auto simp: Let_def compare_exchange_weak_def split: if_splits)
          qed
        qed
      qed
    qed
  qed
qed

lemma msqueue_dequeue_empty_unchanged:
  "msqueue_dequeue sp s = Some (Inl Empty, s') \<Longrightarrow> s' = s"
  using msqueue_dequeue_empty_next [of sp s "(Inl Empty, s')"] by simp

subsection \<open>The queue as a list\<close>

lemma msq_abs_init: "msq_abs msqueue_init []"
proof -
  have "msq_chain msqueue_init [0]"
    by (simp add: msq_chain_def msqueue_init_def new_node_def)
  moreover have "msq_contents msqueue_init [0] = []"
    by (simp add: msq_contents_def)
  ultimately show ?thesis unfolding msq_abs_def by blast
qed

lemma msq_abs_enqueue:
  assumes "msq_abs s xs"
  shows "\<exists>s'. msqueue_enqueue sp v s = Some (Inr s') \<and> msq_abs s' (xs @ [v])"
proof -
  from assms obtain as where c: "msq_chain s as" and xs: "msq_contents s as = xs"
    unfolding msq_abs_def by blast
  from msqueue_enqueue_chain [OF c, of sp v] xs show ?thesis
    unfolding msq_abs_def by auto
qed

lemma msq_abs_dequeue_empty:
  assumes "msq_abs s []"
  shows "msqueue_dequeue sp s = Some (Inl Empty, s)"
proof -
  from assms obtain as where c: "msq_chain s as" and xs: "msq_contents s as = []"
    unfolding msq_abs_def by blast
  from c have "as \<noteq> []" by (simp add: msq_chain_def)
  with xs obtain f where "as = [f]"
    by (cases as) (auto simp: msq_contents_def)
  with c show ?thesis by (simp add: msqueue_dequeue_empty)
qed

lemma msq_abs_dequeue_nonempty:
  assumes "msq_abs s (x # xs)"
  shows "\<exists>s'. msqueue_dequeue sp s = Some (Inr x, s') \<and> msq_abs s' xs"
proof -
  from assms obtain as where c: "msq_chain s as" and xs: "msq_contents s as = x # xs"
    unfolding msq_abs_def by blast
  from xs obtain f a rest where as: "as = f # a # rest"
    by (cases as; cases "tl as") (auto simp: msq_contents_def)
  from xs as have x: "node_value (msq_heap s ! a) = x"
    by (simp add: msq_contents_def)
  from msqueue_dequeue_nonempty [of s f a rest sp] c as xs x show ?thesis
    unfolding msq_abs_def by auto
qed

lemma msq_reachable_abs: "msq_reachable s \<Longrightarrow> \<exists>xs. msq_abs s xs"
proof (induction rule: msq_reachable.induct)
  case msq_init
  show ?case using msq_abs_init by blast
next
  case (msq_enqueue s sp v s')
  then obtain xs where "msq_abs s xs" by blast
  from msq_abs_enqueue [OF this, of sp v] msq_enqueue.hyps(2) show ?case by auto
next
  case (msq_dequeue s sp r s')
  then obtain xs where a: "msq_abs s xs" by blast
  show ?case
  proof (cases xs)
    case Nil
    with a msq_abs_dequeue_empty [of s sp] msq_dequeue.hyps(2) show ?thesis by auto
  next
    case (Cons y ys)
    with a msq_abs_dequeue_nonempty [of s y ys sp] msq_dequeue.hyps(2) show ?thesis by auto
  qed
qed

text \<open>
  Claim C2. On a freshly constructed queue used by one thread, \<^verbatim>\<open>enqueue(1);
  enqueue(2); enqueue(3)\<close> followed by four calls of \<^verbatim>\<open>dequeue\<close> gives 1, then 2,
  then 3, and the fourth call fails with the empty error; every call returns, whatever
  spurious failures its compare-and-swaps have.
\<close>

theorem msqueue_enqueue3_dequeue4:
  "\<exists>s1 s2 s3 s4 s5 s6 s7.
     msqueue_enqueue sp1 1 msqueue_init = Some (Inr s1) \<and>
     msqueue_enqueue sp2 2 s1 = Some (Inr s2) \<and>
     msqueue_enqueue sp3 3 s2 = Some (Inr s3) \<and>
     msqueue_dequeue sp4 s3 = Some (Inr 1, s4) \<and>
     msqueue_dequeue sp5 s4 = Some (Inr 2, s5) \<and>
     msqueue_dequeue sp6 s5 = Some (Inr 3, s6) \<and>
     msqueue_dequeue sp7 s6 = Some (Inl Empty, s7)"
proof -
  from msq_abs_enqueue [OF msq_abs_init, of sp1 1] obtain s1 where
    e1: "msqueue_enqueue sp1 1 msqueue_init = Some (Inr s1)" and a1: "msq_abs s1 [1]"
    by auto
  from msq_abs_enqueue [OF a1, of sp2 2] obtain s2 where
    e2: "msqueue_enqueue sp2 2 s1 = Some (Inr s2)" and a2: "msq_abs s2 [1, 2]"
    by auto
  from msq_abs_enqueue [OF a2, of sp3 3] obtain s3 where
    e3: "msqueue_enqueue sp3 3 s2 = Some (Inr s3)" and a3: "msq_abs s3 [1, 2, 3]"
    by auto
  from msq_abs_dequeue_nonempty [OF a3, of sp4] obtain s4 where
    d4: "msqueue_dequeue sp4 s3 = Some (Inr 1, s4)" and a4: "msq_abs s4 [2, 3]"
    by auto
  from msq_abs_dequeue_nonempty [OF a4, of sp5] obtain s5 where
    d5: "msqueue_dequeue sp5 s4 = Some (Inr 2, s5)" and a5: "msq_abs s5 [3]"
    by auto
  from msq_abs_dequeue_nonempty [OF a5, of sp6] obtain s6 where
    d6: "msqueue_dequeue sp6 s5 = Some (Inr 3, s6)" and a6: "msq_abs s6 []"
    by auto
  from msq_abs_dequeue_empty [OF a6, of sp7]
  have d7: "msqueue_dequeue sp7 s6 = Some (Inl Empty, s6)" .
  from e1 e2 e3 d4 d5 d6 d7 show ?thesis by blast
qed

text \<open>
  Claim C7. In every state that a sequence of \<^verbatim>\<open>enqueue\<close> and \<^verbatim>\<open>dequeue\<close> calls
  reaches from the constructed queue there is a chain \<open>as\<close> of nodes such that:
  \<^verbatim>\<open>head\<close> is not null and points to the first node of the chain; the chain follows
  the \<^verbatim>\<open>next\<close> pointers from \<^verbatim>\<open>head\<close> to a null pointer (it is finite) and repeats
  no node (it is acyclic); \<^verbatim>\<open>tail\<close> points to the last node of the chain or to the
  node before it; and the value of the node \<^verbatim>\<open>head\<close> points to is no element: the
  next \<^verbatim>\<open>dequeue\<close> returns the value of the node after it (\<^verbatim>\<open>head.next\<close>), and
  fails with the empty error when there is none.
\<close>

theorem msqueue_invariants:
  "msq_reachable s \<Longrightarrow>
     \<exists>as. as \<noteq> [] \<and> msq_head s = Some (hd as) \<and>
       path (msq_heap s) (msq_head s) as None \<and> distinct as \<and>
       (msq_tail s = Some (last as) \<or>
        (2 \<le> length as \<and> msq_tail s = Some (as ! (length as - 2)))) \<and>
       (\<forall>sp. \<exists>s'. msqueue_dequeue sp s =
          Some (case tl as of [] \<Rightarrow> Inl Empty
                | a # _ \<Rightarrow> Inr (node_value (msq_heap s ! a)), s'))"
proof -
  assume "msq_reachable s"
  from msq_reachable_abs [OF this] obtain xs as where c: "msq_chain s as"
    and xs: "msq_contents s as = xs"
    unfolding msq_abs_def by blast
  from c have ne: "as \<noteq> []" and p: "path (msq_heap s) (msq_head s) as None"
    by (simp_all add: msq_chain_def)
  have deq: "\<exists>s'. msqueue_dequeue sp s =
          Some (case tl as of [] \<Rightarrow> Inl Empty
                | a # _ \<Rightarrow> Inr (node_value (msq_heap s ! a)), s')" for sp
  proof (cases "tl as")
    case Nil
    with ne have "as = [hd as]" by (cases as) auto
    with c msqueue_dequeue_empty [of s "hd as" sp] Nil show ?thesis by auto
  next
    case (Cons a rest)
    with ne have "as = hd as # a # rest" by (cases as) auto
    with c msqueue_dequeue_nonempty [of s "hd as" a rest sp] Cons show ?thesis by auto
  qed
  from c path_hd [OF p ne] deq show ?thesis
    unfolding msq_chain_def by blast
qed

theorem msqueue_invariants_witness:
  "msq_reachable
     \<lparr>msq_head = Some 0, msq_tail = Some 0,
      msq_heap = [\<lparr>node_value = 0, node_next = Some 1\<rparr>,
                  \<lparr>node_value = 5, node_next = None\<rparr>]\<rparr> \<and>
   (\<exists>as. as \<noteq> [] \<and>
      msq_head \<lparr>msq_head = Some 0, msq_tail = Some 0,
      msq_heap = [\<lparr>node_value = 0, node_next = Some 1\<rparr>,
                  \<lparr>node_value = 5, node_next = None\<rparr>]\<rparr> = Some (hd as) \<and>
      path [\<lparr>node_value = 0, node_next = Some 1\<rparr>,
            \<lparr>node_value = 5, node_next = None\<rparr>] (Some 0) as None \<and>
      distinct as \<and> 2 \<le> length as \<and> Some 0 = Some (as ! (length as - 2)))"
proof -
  let ?s = "\<lparr>msq_head = Some 0, msq_tail = Some 0,
      msq_heap = [\<lparr>node_value = 0, node_next = Some 1\<rparr>,
                  \<lparr>node_value = 5, node_next = None\<rparr>]\<rparr>"
  have "msqueue_enqueue [False, True] 5 msqueue_init = Some (Inr ?s)"
    unfolding msqueue_enqueue_def new_node_def msqueue_init_def
    by (subst msqueue_enqueue_loop.simps)
       (simp add: compare_exchange_weak_def spurious_def Let_def)
  from msq_enqueue [OF msq_init this] have r: "msq_reachable ?s" .
  from msqueue_invariants [OF r] obtain as where as: "as \<noteq> []"
    "msq_head ?s = Some (hd as)" "path (msq_heap ?s) (msq_head ?s) as None" "distinct as"
    "msq_tail ?s = Some (last as) \<or>
        (2 \<le> length as \<and> msq_tail ?s = Some (as ! (length as - 2)))"
    by blast
  from as(1,3) have "as = [0, 1]"
    by (cases as; cases "tl as"; cases "tl (tl as)") auto
  then have "as \<noteq> [] \<and> msq_head ?s = Some (hd as) \<and>
      path (msq_heap ?s) (Some 0) as None \<and>
      distinct as \<and> 2 \<le> length as \<and> Some 0 = Some (as ! (length as - 2))"
    by simp
  then show ?thesis using r by (intro conjI exI [of _ as]) simp_all
qed
section \<open>Theorems: elimination stack\<close>

lemma elimination_stack_push_loop_eq:
  "elimination_stack_push_loop sp n s =
     s\<lparr>es_top := Some n,
       es_heap := (es_heap s)[n := (es_heap s ! n)\<lparr>node_next := es_top s\<rparr>]\<rparr>"
proof (induction sp arbitrary: s)
  case Nil
  show ?case
    by (subst elimination_stack_push_loop.simps)
       (simp add: compare_exchange_weak_def spurious_def)
next
  case (Cons b sp)
  let ?h = "(es_heap s)[n := (es_heap s ! n)\<lparr>node_next := es_top s\<rparr>]"
  have idem: "(es_heap s)[n := (?h ! n)\<lparr>node_next := es_top s\<rparr>] = ?h"
    by (cases "n < length (es_heap s)") (simp_all add: list_update_beyond)
  show ?case
  proof (cases b)
    case False
    then show ?thesis
      by (subst elimination_stack_push_loop.simps)
         (simp add: compare_exchange_weak_def spurious_def)
  next
    case True
    then have "elimination_stack_push_loop (b # sp) n s =
        elimination_stack_push_loop sp n (s\<lparr>es_heap := ?h, es_top := es_top s\<rparr>)"
      by (subst elimination_stack_push_loop.simps)
         (simp add: compare_exchange_weak_def spurious_def)
    also have "\<dots> = s\<lparr>es_top := Some n, es_heap := ?h\<rparr>"
      by (simp add: Cons.IH idem)
    finally show ?thesis .
  qed
qed

lemma elimination_stack_pop_loop_eq:
  "elimination_stack_pop_loop sp s =
     (case es_top s of
        None \<Rightarrow> (Inl Empty, s)
      | Some a \<Rightarrow>
          if a < length (es_heap s)
          then (Inr (node_value (es_heap s ! a)), s\<lparr>es_top := node_next (es_heap s ! a)\<rparr>)
          else (Inl InvalidPointer, s))"
proof (induction sp)
  case Nil
  show ?case
    by (subst elimination_stack_pop_loop.simps)
       (simp add: compare_exchange_weak_def spurious_def split: option.splits)
next
  case (Cons b sp)
  show ?case
  proof (cases "es_top s")
    case None
    then show ?thesis
      by (subst elimination_stack_pop_loop.simps) simp
  next
    case (Some a)
    have same: "s\<lparr>es_top := Some a\<rparr> = s"
      using Some by (cases s) simp
    show ?thesis
      using Some Cons.IH
      by (subst elimination_stack_pop_loop.simps)
         (simp add: compare_exchange_weak_def spurious_def same)
  qed
qed

text \<open>The only store into \<^verbatim>\<open>elim_ops\<close> is the one of the compare-and-swap, which
  stores 0 when it succeeds.\<close>

lemma elim_ops_cas_stores_zero:
  "set (xs[i := snd (compare_exchange_strong (xs ! i) e 0)]) \<subseteq> insert 0 (set xs)"
proof (cases "i < length xs")
  case True
  then have "xs[i := xs ! i] = xs" by simp
  then show ?thesis
    using set_update_subset_insert [of xs i 0]
    by (auto simp: compare_exchange_strong_def)
next
  case False
  then show ?thesis by (auto simp: list_update_beyond)
qed

lemma elimination_stack_push_stores_zero:
  "set (elim_ops (elimination_stack_push r sp v s)) \<subseteq> insert 0 (set (elim_ops s))"
proof -
  obtain b x where cas: "compare_exchange_strong (elim_ops s ! (r mod ELIM_SIZE)) 2 0 = (b, x)"
    by (cases "compare_exchange_strong (elim_ops s ! (r mod ELIM_SIZE)) 2 0")
  with elim_ops_cas_stores_zero [of "elim_ops s" "r mod ELIM_SIZE" 2]
  have "set ((elim_ops s)[r mod ELIM_SIZE := x]) \<subseteq> insert 0 (set (elim_ops s))"
    by simp
  with cas show ?thesis
    by (simp add: elimination_stack_push_def new_node_def Let_def
        elimination_stack_push_loop_eq)
qed

lemma elimination_stack_pop_stores_zero:
  "set (elim_ops (snd (elimination_stack_pop r sp s))) \<subseteq> insert 0 (set (elim_ops s))"
proof -
  obtain b x where cas: "compare_exchange_strong (elim_ops s ! (r mod ELIM_SIZE)) 1 0 = (b, x)"
    by (cases "compare_exchange_strong (elim_ops s ! (r mod ELIM_SIZE)) 1 0")
  with elim_ops_cas_stores_zero [of "elim_ops s" "r mod ELIM_SIZE" 1]
  have "set ((elim_ops s)[r mod ELIM_SIZE := x]) \<subseteq> insert 0 (set (elim_ops s))"
    by simp
  with cas show ?thesis
    by (simp add: elimination_stack_pop_def Let_def elimination_stack_pop_loop_eq
        split: option.splits)
qed

text \<open>On a state whose \<^verbatim>\<open>elim_ops\<close> entries are all 0 both compare-and-swaps on
  \<^verbatim>\<open>elim_ops[slot]\<close> fail and store nothing, and the call is its fallback loop.\<close>

lemma elimination_stack_push_idle:
  assumes "elim_ops s = replicate ELIM_SIZE 0"
  shows "elimination_stack_push r sp v s =
           elimination_stack_push_loop sp (length (es_heap s))
             (s\<lparr>es_heap := es_heap s @ [\<lparr>node_value = v, node_next = None\<rparr>]\<rparr>)"
proof -
  have "r mod ELIM_SIZE < ELIM_SIZE" by (simp add: ELIM_SIZE_def)
  then have "elim_ops s ! (r mod ELIM_SIZE) = 0"
    "(elim_ops s)[r mod ELIM_SIZE := 0] = elim_ops s"
    using assms by (simp_all add: list_update_same_conv)
  then show ?thesis
    by (simp add: elimination_stack_push_def new_node_def compare_exchange_strong_def Let_def)
qed

lemma elimination_stack_pop_idle:
  assumes "elim_ops s = replicate ELIM_SIZE 0"
  shows "elimination_stack_pop r sp s = elimination_stack_pop_loop sp s"
proof -
  have "r mod ELIM_SIZE < ELIM_SIZE" by (simp add: ELIM_SIZE_def)
  then have "elim_ops s ! (r mod ELIM_SIZE) = 0"
    "(elim_ops s)[r mod ELIM_SIZE := 0] = elim_ops s"
    using assms by (simp_all add: list_update_same_conv)
  then show ?thesis
    by (simp add: elimination_stack_pop_def compare_exchange_strong_def Let_def)
qed

lemma elimination_stack_push_treiber:
  assumes "elim_ops s = replicate ELIM_SIZE 0"
  shows "elim_ops (elimination_stack_push r sp v s) = replicate ELIM_SIZE 0"
    and "treiber_of (elimination_stack_push r sp v s) = treiber_stack_push sp v (treiber_of s)"
  using assms
  by (simp_all add: elimination_stack_push_idle elimination_stack_push_loop_eq
      treiber_stack_push_eq treiber_of_def)

lemma elimination_stack_pop_treiber:
  assumes "elim_ops s = replicate ELIM_SIZE 0"
    and "elimination_stack_pop r sp s = (res, s')"
  shows "elim_ops s' = replicate ELIM_SIZE 0"
    and "treiber_stack_pop sp (treiber_of s) = (res, treiber_of s')"
  using assms
  by (auto simp: elimination_stack_pop_idle elimination_stack_pop_loop_eq
      treiber_stack_pop_eq treiber_of_def split: option.splits if_splits)

lemma elimination_stack_run_treiber:
  assumes "elim_ops s = replicate ELIM_SIZE 0"
    and "elimination_stack_run cs s = (rs, s')"
  shows "elim_ops s' = replicate ELIM_SIZE 0 \<and>
         treiber_stack_run cs (treiber_of s) = (rs, treiber_of s')"
  using assms
proof (induction cs arbitrary: s rs s')
  case Nil
  then show ?case by simp
next
  case (Cons c cs)
  show ?case
  proof (cases c)
    case (Push r sp v)
    from Cons.prems(1) have e: "elim_ops (elimination_stack_push r sp v s) = replicate ELIM_SIZE 0"
      by (rule elimination_stack_push_treiber)
    from Cons.prems(2) Push
    have "elimination_stack_run cs (elimination_stack_push r sp v s) = (rs, s')"
      by simp
    from Cons.IH [OF e this] elimination_stack_push_treiber(2) [OF Cons.prems(1), of r sp v] Push
    show ?thesis by simp
  next
    case (Pop r sp)
    obtain res s1 where p: "elimination_stack_pop r sp s = (res, s1)"
      by (cases "elimination_stack_pop r sp s")
    obtain rs1 s2 where r: "elimination_stack_run cs s1 = (rs1, s2)"
      by (cases "elimination_stack_run cs s1")
    from Cons.prems(2) Pop p r have eq: "rs = res # rs1" "s' = s2" by simp_all
    from elimination_stack_pop_treiber [OF Cons.prems(1) p]
    have e: "elim_ops s1 = replicate ELIM_SIZE 0"
      and t: "treiber_stack_pop sp (treiber_of s) = (res, treiber_of s1)" .
    from Cons.IH [OF e r] t eq Pop show ?thesis by simp
  qed
qed

text \<open>
  Claim C6. A \<^verbatim>\<open>push\<close> or \<^verbatim>\<open>pop\<close> of the elimination stack, on any state, stores
  no value other than 0 into \<^verbatim>\<open>elim_ops\<close>. After any run of \<^verbatim>\<open>push\<close> and \<^verbatim>\<open>pop\<close>
  calls on a constructed elimination stack every entry of \<^verbatim>\<open>elim_ops\<close> is 0; the compare-and-swap of the next call on
  \<^verbatim>\<open>elim_ops[slot]\<close>, expecting 2 in \<^verbatim>\<open>push\<close> and 1 in \<^verbatim>\<open>pop\<close>, fails in every slot,
  so the next \<^verbatim>\<open>push\<close> and the next \<^verbatim>\<open>pop\<close> are their fallback loops; and the
  Treiber stack gives the same results in the same run and ends with the same
  \<^verbatim>\<open>top\<close> and nodes.
\<close>

theorem elimination_stack_is_treiber:
  "set (elim_ops (elimination_stack_push r sp v s0)) \<subseteq> insert 0 (set (elim_ops s0)) \<and>
   set (elim_ops (snd (elimination_stack_pop r sp s0))) \<subseteq> insert 0 (set (elim_ops s0)) \<and>
   (case elimination_stack_run cs elimination_stack_init of
      (rs, s) \<Rightarrow>
        elim_ops s = replicate ELIM_SIZE 0 \<and>
        fst (compare_exchange_strong (elim_ops s ! (r mod ELIM_SIZE)) 2 0) = False \<and>
        fst (compare_exchange_strong (elim_ops s ! (r mod ELIM_SIZE)) 1 0) = False \<and>
        elimination_stack_push r sp v s =
          elimination_stack_push_loop sp (length (es_heap s))
            (s\<lparr>es_heap := es_heap s @ [\<lparr>node_value = v, node_next = None\<rparr>]\<rparr>) \<and>
        elimination_stack_pop r sp s = elimination_stack_pop_loop sp s \<and>
        treiber_stack_run cs treiber_stack_init = (rs, treiber_of s))"
proof -
  obtain rs s where run: "elimination_stack_run cs elimination_stack_init = (rs, s)"
    by (cases "elimination_stack_run cs elimination_stack_init")
  have init: "elim_ops elimination_stack_init = replicate ELIM_SIZE 0"
    by (simp add: elimination_stack_init_def)
  have t0: "treiber_of elimination_stack_init = treiber_stack_init"
    by (simp add: treiber_of_def elimination_stack_init_def treiber_stack_init_def)
  from elimination_stack_run_treiber [OF init run] t0
  have e: "elim_ops s = replicate ELIM_SIZE 0"
    and t: "treiber_stack_run cs treiber_stack_init = (rs, treiber_of s)"
    by simp_all
  have "r mod ELIM_SIZE < ELIM_SIZE" by (simp add: ELIM_SIZE_def)
  with e have z: "elim_ops s ! (r mod ELIM_SIZE) = 0" by simp
  from run e t z elimination_stack_push_idle [OF e, of r sp v]
    elimination_stack_pop_idle [OF e, of r sp]
    elimination_stack_push_stores_zero [of r sp v s0]
    elimination_stack_pop_stores_zero [of r sp s0]
  show ?thesis
    by (simp add: compare_exchange_strong_def)
qed

section \<open>Theorems: the empty error\<close>

lemma sgl_stack_pop_empty_unchanged: "sgl_stack_pop s = (Inl Empty, s') \<Longrightarrow> s' = s"
  by (auto simp: sgl_stack_pop_def split: list.splits)

lemma sgl_queue_dequeue_empty_unchanged: "sgl_queue_dequeue s = (Inl Empty, s') \<Longrightarrow> s' = s"
  by (auto simp: sgl_queue_dequeue_def split: list.splits)

lemma treiber_stack_pop_empty_unchanged: "treiber_stack_pop sp s = (Inl Empty, s') \<Longrightarrow> s' = s"
  by (auto simp: treiber_stack_pop_eq split: option.splits if_splits)

text \<open>
  Claim C10. A \<^verbatim>\<open>pop\<close> or \<^verbatim>\<open>dequeue\<close> of the SGL stack, the SGL queue, the Treiber
  stack or the Michael and Scott queue that fails with the empty error returns the
  container in the state it found: its contents are unchanged and every later call
  behaves as it would have without the failed call.
\<close>

theorem empty_error_leaves_state:
  "(sgl_stack_pop s1 = (Inl Empty, s1') \<longrightarrow> s1' = s1) \<and>
   (sgl_queue_dequeue s2 = (Inl Empty, s2') \<longrightarrow> s2' = s2) \<and>
   (treiber_stack_pop sp3 s3 = (Inl Empty, s3') \<longrightarrow> s3' = s3) \<and>
   (msqueue_dequeue sp4 s4 = Some (Inl Empty, s4') \<longrightarrow> s4' = s4)"
  using sgl_stack_pop_empty_unchanged sgl_queue_dequeue_empty_unchanged
    treiber_stack_pop_empty_unchanged msqueue_dequeue_empty_unchanged
  by blast

theorem empty_error_leaves_state_witness:
  "sgl_stack_pop (sgl_stack_push 4 sgl_stack_init) = (Inr 4, sgl_stack_init) \<and>
   sgl_stack_pop sgl_stack_init = (Inl Empty, sgl_stack_init) \<and>
   sgl_queue_dequeue sgl_queue_init = (Inl Empty, sgl_queue_init) \<and>
   treiber_stack_pop [True, False]
       \<lparr>ts_top = None, ts_heap = [\<lparr>node_value = 4, node_next = None\<rparr>]\<rparr>
     = (Inl Empty, \<lparr>ts_top = None, ts_heap = [\<lparr>node_value = 4, node_next = None\<rparr>]\<rparr>) \<and>
   msqueue_dequeue [True]
       \<lparr>msq_head = Some 1, msq_tail = Some 1,
        msq_heap = [\<lparr>node_value = 0, node_next = Some 1\<rparr>,
                    \<lparr>node_value = 4, node_next = None\<rparr>]\<rparr>
     = Some (Inl Empty,
       \<lparr>msq_head = Some 1, msq_tail = Some 1,
        msq_heap = [\<lparr>node_value = 0, node_next = Some 1\<rparr>,
                    \<lparr>node_value = 4, node_next = None\<rparr>]\<rparr>)"
proof -
  let ?t = "\<lparr>ts_top = None, ts_heap = [\<lparr>node_value = 4, node_next = None\<rparr>]\<rparr>"
  let ?q = "\<lparr>msq_head = Some 1, msq_tail = Some 1,
        msq_heap = [\<lparr>node_value = 0, node_next = Some 1\<rparr>,
                    \<lparr>node_value = 4, node_next = None\<rparr>]\<rparr>"
  have p: "sgl_stack_pop (sgl_stack_push 4 sgl_stack_init) = (Inr 4, sgl_stack_init)"
    by (simp add: sgl_stack_pop_def sgl_stack_push_def sgl_stack_init_def)
  obtain a where a: "sgl_stack_pop sgl_stack_init = (Inl Empty, a)"
    by (simp add: sgl_stack_pop_def sgl_stack_init_def)
  obtain b where b: "sgl_queue_dequeue sgl_queue_init = (Inl Empty, b)"
    by (simp add: sgl_queue_dequeue_def sgl_queue_init_def)
  have "\<exists>c. treiber_stack_pop [True, False] ?t = (Inl Empty, c)"
    by (subst treiber_stack_pop.simps) simp
  then obtain c where c: "treiber_stack_pop [True, False] ?t = (Inl Empty, c)" ..
  have "\<exists>d. msqueue_dequeue [True] ?q = Some (Inl Empty, d)"
    by (subst msqueue_dequeue.simps) (simp add: Let_def)
  then obtain d where d: "msqueue_dequeue [True] ?q = Some (Inl Empty, d)" ..
  from empty_error_leaves_state
    [of sgl_stack_init a sgl_queue_init b "[True, False]" ?t c "[True]" ?q d] a b c d
  have "a = sgl_stack_init" "b = sgl_queue_init" "c = ?t" "d = ?q"
    by blast+
  with p a b c d show ?thesis by simp
qed

section \<open>Theorems: flat-combining stack and queue\<close>

subsection \<open>Slot assignment\<close>

lemma sint_of_nat_32: "n < 2 ^ 31 \<Longrightarrow> sint (of_nat n :: 32 word) = int n"
proof -
  assume "n < 2 ^ 31"
  then have "int n < 2 ^ 31" by (simp add: of_nat_less_iff [of n "2 ^ 31", simplified])
  then have "signed_take_bit 31 (int n) = int n"
    by (intro signed_take_bit_int_eq_self) simp_all
  then show ?thesis by (simp add: signed_of_nat)
qed

lemma fc_stack_get_slot_threads:
  "n < 2 ^ 31 \<Longrightarrow>
     fold (\<lambda>tid g. snd (fc_stack_get_slot tid g)) [0..<n] fc_stack_statics_init =
       \<lparr>fcs_counter = of_nat n, fcs_my_slot = (\<lambda>t. if t < n then Some (int t) else None)\<rparr>"
proof (induction n)
  case 0
  show ?case by (simp add: fc_stack_statics_init_def)
next
  case (Suc n)
  then have n: "n < 2 ^ 31" by simp
  have upd: "(\<lambda>t. if t < n then Some (int t) else None)(n \<mapsto> int n) =
      (\<lambda>t. if t < Suc n then Some (int t) else None)"
    by (rule ext) auto
  let ?f = "\<lambda>tid g. snd (fc_stack_get_slot tid g)"
  have "fold ?f [0..<Suc n] fc_stack_statics_init =
      snd (fc_stack_get_slot n (fold ?f [0..<n] fc_stack_statics_init))"
    by simp
  also have "\<dots> = snd (fc_stack_get_slot n
      \<lparr>fcs_counter = of_nat n, fcs_my_slot = (\<lambda>t. if t < n then Some (int t) else None)\<rparr>)"
    by (simp only: Suc.IH [OF n])
  also have "\<dots> = \<lparr>fcs_counter = of_nat (Suc n),
      fcs_my_slot = (\<lambda>t. if t < Suc n then Some (int t) else None)\<rparr>"
    by (simp add: fc_stack_get_slot_def sint_of_nat_32 [OF n] upd)
  finally show ?case .
qed

lemma fc_queue_get_slot_threads:
  "n < 2 ^ 31 \<Longrightarrow>
     fold (\<lambda>tid g. snd (fc_queue_get_slot tid g)) [0..<n] fc_queue_statics_init =
       \<lparr>fcq_counter = of_nat n,
        fcq_my_slot = (\<lambda>t. if t < n then int (t mod MAX_THREADS) else - 1)\<rparr>"
proof (induction n)
  case 0
  show ?case by (simp add: fc_queue_statics_init_def)
next
  case (Suc n)
  then have n: "n < 2 ^ 31" by simp
  have m: "int n smod int MAX_THREADS = int (n mod MAX_THREADS)"
    by (simp add: signed_modulo_int_def sgn_if zmod_int MAX_THREADS_def)
  have upd: "(\<lambda>t. if t < n then int (t mod MAX_THREADS) else - 1)(n := int (n mod MAX_THREADS)) =
      (\<lambda>t. if t < Suc n then int (t mod MAX_THREADS) else - 1)"
    by (rule ext) auto
  let ?f = "\<lambda>tid g. snd (fc_queue_get_slot tid g)"
  have "fold ?f [0..<Suc n] fc_queue_statics_init =
      snd (fc_queue_get_slot n (fold ?f [0..<n] fc_queue_statics_init))"
    by simp
  also have "\<dots> = snd (fc_queue_get_slot n
      \<lparr>fcq_counter = of_nat n,
       fcq_my_slot = (\<lambda>t. if t < n then int (t mod MAX_THREADS) else - 1)\<rparr>)"
    by (simp only: Suc.IH [OF n])
  also have "\<dots> = \<lparr>fcq_counter = of_nat (Suc n),
      fcq_my_slot = (\<lambda>t. if t < Suc n then int (t mod MAX_THREADS) else - 1)\<rparr>"
    by (simp add: fc_queue_get_slot_def sint_of_nat_32 [OF n] upd m Let_def)
  finally show ?case .
qed

lemma fc_stack_get_slot_first:
  "fc_stack_get_slot tid fc_stack_statics_init =
     (0, \<lparr>fcs_counter = 1, fcs_my_slot = (\<lambda>t. None)(tid \<mapsto> 0)\<rparr>)"
  by (simp add: fc_stack_get_slot_def fc_stack_statics_init_def)


lemma fc_queue_get_slot_first:
  "fc_queue_get_slot tid fc_queue_statics_init =
     (0, \<lparr>fcq_counter = 1, fcq_my_slot = (\<lambda>t. - 1)(tid := 0)\<rparr>)"
  by (simp add: fc_queue_get_slot_def fc_queue_statics_init_def MAX_THREADS_def)


lemma fc_queue_get_slot_in_range:
  assumes n: "n < 2 ^ 31"
  shows "0 \<le> fst (fc_queue_get_slot tid
            (fold (\<lambda>tid g. snd (fc_queue_get_slot tid g)) [0..<n] fc_queue_statics_init)) \<and>
         fst (fc_queue_get_slot tid
            (fold (\<lambda>tid g. snd (fc_queue_get_slot tid g)) [0..<n] fc_queue_statics_init))
           < int MAX_THREADS"
proof -
  have m: "int n smod int MAX_THREADS = int (n mod MAX_THREADS)"
    by (simp add: signed_modulo_int_def sgn_if zmod_int MAX_THREADS_def)
  have b: "int (k mod MAX_THREADS) < int MAX_THREADS" for k
    by (simp add: MAX_THREADS_def)
  have ne: "int (k mod MAX_THREADS) \<noteq> - 1" for k
    by simp
  show ?thesis
    unfolding fc_queue_get_slot_threads [OF n]
    using b by (simp add: fc_queue_get_slot_def sint_of_nat_32 [OF n] m Let_def)
qed

lemma fc_stack_get_slot_in_range:
  assumes n: "n \<le> MAX_THREADS" and tid: "tid < n"
  shows "fst (fc_stack_get_slot tid
            (fold (\<lambda>tid g. snd (fc_stack_get_slot tid g)) [0..<n] fc_stack_statics_init))
           = int tid"
proof -
  from n have "n < 2 ^ 31" by (simp add: MAX_THREADS_def)
  from fc_stack_get_slot_threads [OF this] tid show ?thesis
    by (simp add: fc_stack_get_slot_def)
qed

text \<open>
  Claim C5 (every thread gets a slot index in \<open>[0, MAX_THREADS)\<close>, the same at each of
  its calls, so that every access to \<^verbatim>\<open>slots\<close> is in bounds however many threads there
  are) holds for the queue and fails for the stack. The queue's \<^verbatim>\<open>get_slot\<close> reduces
  the counter modulo \<open>MAX_THREADS\<close>; the stack's does not. After the threads 0 to 31
  have called the stack's \<^verbatim>\<open>get_slot\<close>, the thread 32 gets the index 32, which is not
  below \<open>MAX_THREADS = 32\<close>, and its \<^verbatim>\<open>pop\<close> accesses \<^verbatim>\<open>slots[32]\<close>, outside the
  array; the queue's \<^verbatim>\<open>get_slot\<close> gives the same thread the index 0.
\<close>

theorem fc_stack_slot_out_of_bounds:
  "fst (fc_stack_get_slot 32
          (fold (\<lambda>tid g. snd (fc_stack_get_slot tid g)) [0..<32] fc_stack_statics_init)) = 32 \<and>
   \<not> (32 < int MAX_THREADS) \<and>
   map_option fst
     (fc_stack_pop 32
        (fold (\<lambda>tid g. snd (fc_stack_get_slot tid g)) [0..<32] fc_stack_statics_init,
         fc_stack_init (replicate MAX_THREADS sl)) []) = Some (Inl OutOfBounds) \<and>
   fst (fc_queue_get_slot 32
          (fold (\<lambda>tid g. snd (fc_queue_get_slot tid g)) [0..<32] fc_queue_statics_init)) = 0"
proof -
  have n: "(32::nat) < 2 ^ 31" by simp
  have "fst (fc_stack_get_slot 32
          (fold (\<lambda>tid g. snd (fc_stack_get_slot tid g)) [0..<32] fc_stack_statics_init)) = 32"
    unfolding fc_stack_get_slot_threads [OF n] by (simp add: fc_stack_get_slot_def)
  moreover have "\<not> (32 < int MAX_THREADS)"
    by (simp add: MAX_THREADS_def)
  moreover have "map_option fst
     (fc_stack_pop 32
        (fold (\<lambda>tid g. snd (fc_stack_get_slot tid g)) [0..<32] fc_stack_statics_init,
         fc_stack_init (replicate MAX_THREADS sl)) []) = Some (Inl OutOfBounds)"
    unfolding fc_stack_get_slot_threads [OF n]
    by (simp add: fc_stack_get_slot_def fc_stack_pop_def fc_stack_init_def MAX_THREADS_def)
  moreover have "fst (fc_queue_get_slot 32
          (fold (\<lambda>tid g. snd (fc_queue_get_slot tid g)) [0..<32] fc_queue_statics_init)) = 0"
    unfolding fc_queue_get_slot_threads [OF n]
    by (simp add: fc_queue_get_slot_def MAX_THREADS_def signed_modulo_int_def)
  ultimately show ?thesis by (intro conjI)
qed



subsection \<open>A call that runs alone on a container at rest\<close>

lemma fc_stack_call_next:
  assumes "fc_returned pc = None" and "pc \<noteq> Spin"
  shows "fc_stack_call \<lparr>th_pc = pc, th_slot = s, th_req = rq\<rparr> st [] =
         fc_stack_call (fst (fc_stack_step \<lparr>th_pc = pc, th_slot = s, th_req = rq\<rparr> st))
           (snd (fc_stack_step \<lparr>th_pc = pc, th_slot = s, th_req = rq\<rparr> st)) []"
  using assms by (subst fc_stack_call.simps) simp

lemma fc_stack_scan_idle:
  assumes "i \<le> j" and "j \<le> MAX_THREADS"
    and "\<And>k. i \<le> k \<Longrightarrow> k < j \<Longrightarrow> slot_op (fcs_slots st ! k) = 0"
  shows "fc_stack_call \<lparr>th_pc = Load_op i, th_slot = s, th_req = rq\<rparr> st [] =
         fc_stack_call \<lparr>th_pc = Load_op j, th_slot = s, th_req = rq\<rparr> st []"
  using assms
proof (induction rule: inc_induct)
  case base
  show ?case ..
next
  case (step n)
  from step.hyps step.prems(1) have n: "n < MAX_THREADS" by simp
  have op: "slot_op (fcs_slots st ! n) = 0" using step.prems(2) [of n] step.hyps by simp
  have "fc_stack_call \<lparr>th_pc = Load_op n, th_slot = s, th_req = rq\<rparr> st [] =
        fc_stack_call \<lparr>th_pc = Load_op (Suc n), th_slot = s, th_req = rq\<rparr> st []"
    by (subst fc_stack_call_next) (simp_all add: fc_stack_step_def Let_def n op)
  also have "\<dots> = fc_stack_call \<lparr>th_pc = Load_op j, th_slot = s, th_req = rq\<rparr> st []"
    using step.prems by (intro step.IH) simp_all
  finally show ?case .
qed

lemma fc_stack_combine_pop:
  assumes s: "s < MAX_THREADS" and len: "length (fcs_slots st) = MAX_THREADS"
    and op: "slot_op (fcs_slots st ! s) = 2"
    and idle: "\<And>k. k < MAX_THREADS \<Longrightarrow> k \<noteq> s \<Longrightarrow> slot_op (fcs_slots st ! k) = 0"
  shows "fc_stack_call \<lparr>th_pc = Load_op 0, th_slot = t, th_req = rq\<rparr> st [] =
         fc_stack_call \<lparr>th_pc = Unlock, th_slot = t, th_req = rq\<rparr>
           (case fcs_data st of
              [] \<Rightarrow> st\<lparr>fcs_slots := (fcs_slots st)[s := (fcs_slots st ! s)\<lparr>slot_done := True\<rparr>]\<rparr>
            | v # rest \<Rightarrow>
                st\<lparr>fcs_data := rest,
                   fcs_slots := (fcs_slots st)[s := (fcs_slots st ! s)
                                  \<lparr>slot_result := v, slot_done := True\<rparr>]\<rparr>) []"
  (is "_ = fc_stack_call _ ?st' []")
proof -
  have "fc_stack_call \<lparr>th_pc = Load_op 0, th_slot = t, th_req = rq\<rparr> st [] =
        fc_stack_call \<lparr>th_pc = Load_op s, th_slot = t, th_req = rq\<rparr> st []"
    using s by (intro fc_stack_scan_idle idle) simp_all
  also have "\<dots> = fc_stack_call \<lparr>th_pc = Serve_pop s, th_slot = t, th_req = rq\<rparr> st []"
    by (subst fc_stack_call_next) (simp_all add: fc_stack_step_def Let_def s op)
  also have "\<dots> = fc_stack_call \<lparr>th_pc = Set_done s, th_slot = t, th_req = rq\<rparr>
      (case fcs_data st of
         [] \<Rightarrow> st
       | v # rest \<Rightarrow>
           st\<lparr>fcs_data := rest,
              fcs_slots := (fcs_slots st)[s := (fcs_slots st ! s)\<lparr>slot_result := v\<rparr>]\<rparr>) []"
    by (subst fc_stack_call_next) (simp_all add: fc_stack_step_def Let_def split: list.splits)
  also have "\<dots> = fc_stack_call \<lparr>th_pc = Load_op (Suc s), th_slot = t, th_req = rq\<rparr> ?st' []"
    using s len
    by (subst fc_stack_call_next) (simp_all add: fc_stack_step_def Let_def split: list.splits)
  also have "\<dots> = fc_stack_call \<lparr>th_pc = Load_op MAX_THREADS, th_slot = t, th_req = rq\<rparr> ?st' []"
    using s by (intro fc_stack_scan_idle) (auto simp: idle split: list.splits)
  also have "\<dots> = fc_stack_call \<lparr>th_pc = Unlock, th_slot = t, th_req = rq\<rparr> ?st' []"
    by (subst fc_stack_call_next) (simp_all add: fc_stack_step_def Let_def)
  finally show ?thesis .
qed


lemma fc_stack_call_returned:
  "fc_stack_call \<lparr>th_pc = Returned r, th_slot = s, th_req = rq\<rparr> st ws = Some (r, st)"
  by (subst fc_stack_call.simps) simp

lemma fc_stack_call_pop_idle:
  assumes idle: "fcs_idle st" and s: "s < MAX_THREADS"
  shows "fc_stack_call \<lparr>th_pc = Post_op, th_slot = s, th_req = Remove\<rparr> st [] =
     Some (case fcs_data st of
        [] \<Rightarrow>
          (Some (if slot_result (fcs_slots st ! s) = - 1 then Inl Empty
                 else Inr (slot_result (fcs_slots st ! s))),
           st\<lparr>fcs_lock := False,
              fcs_slots := (fcs_slots st)[s := (fcs_slots st ! s)
                             \<lparr>slot_done := True, slot_op := 0\<rparr>]\<rparr>)
      | v # rest \<Rightarrow>
          (Some (if v = - 1 then Inl Empty else Inr v),
           st\<lparr>fcs_data := rest, fcs_lock := False,
              fcs_slots := (fcs_slots st)[s := (fcs_slots st ! s)
                             \<lparr>slot_result := v, slot_done := True, slot_op := 0\<rparr>]\<rparr>))"
proof -
  from idle s have len: "length (fcs_slots st) = MAX_THREADS" and lock: "\<not> fcs_lock st"
    and ops: "\<And>k. k < MAX_THREADS \<Longrightarrow> slot_op (fcs_slots st ! k) = 0"
    by (simp_all add: fcs_idle_def)
  let ?posted = "st\<lparr>fcs_slots := (fcs_slots st)[s := (fcs_slots st ! s)
      \<lparr>slot_op := 2, slot_done := False\<rparr>], fcs_lock := True\<rparr>"
  let ?served = "case fcs_data ?posted of
      [] \<Rightarrow> ?posted\<lparr>fcs_slots := (fcs_slots ?posted)[s := (fcs_slots ?posted ! s)
                        \<lparr>slot_done := True\<rparr>]\<rparr>
    | v # rest \<Rightarrow> ?posted\<lparr>fcs_data := rest,
          fcs_slots := (fcs_slots ?posted)[s := (fcs_slots ?posted ! s)
                        \<lparr>slot_result := v, slot_done := True\<rparr>]\<rparr>"
  have "fc_stack_call \<lparr>th_pc = Post_op, th_slot = s, th_req = Remove\<rparr> st [] =
        fc_stack_call \<lparr>th_pc = Post_done, th_slot = s, th_req = Remove\<rparr>
          (st\<lparr>fcs_slots := (fcs_slots st)[s := (fcs_slots st ! s)\<lparr>slot_op := 2\<rparr>]\<rparr>) []"
    by (subst fc_stack_call_next) (simp_all add: fc_stack_step_def Let_def)
  also have "\<dots> = fc_stack_call \<lparr>th_pc = Try_lock, th_slot = s, th_req = Remove\<rparr>
          (st\<lparr>fcs_slots := (fcs_slots st)[s := (fcs_slots st ! s)
                 \<lparr>slot_op := 2, slot_done := False\<rparr>]\<rparr>) []"
    using s len by (subst fc_stack_call_next) (simp_all add: fc_stack_step_def Let_def)
  also have "\<dots> = fc_stack_call \<lparr>th_pc = Load_op 0, th_slot = s, th_req = Remove\<rparr> ?posted []"
    using lock by (subst fc_stack_call_next) (simp_all add: fc_stack_step_def Let_def)
  also have "\<dots> = fc_stack_call \<lparr>th_pc = Unlock, th_slot = s, th_req = Remove\<rparr> ?served []"
    using s len by (intro fc_stack_combine_pop) (simp_all add: ops)
  also have "\<dots> = fc_stack_call \<lparr>th_pc = Reset_op, th_slot = s, th_req = Remove\<rparr>
      (?served\<lparr>fcs_lock := False\<rparr>) []"
    by (subst fc_stack_call_next) (simp_all add: fc_stack_step_def Let_def)
  also have "\<dots> = fc_stack_call \<lparr>th_pc = Check_result, th_slot = s, th_req = Remove\<rparr>
      (?served\<lparr>fcs_lock := False,
         fcs_slots := (fcs_slots ?served)[s := (fcs_slots ?served ! s)\<lparr>slot_op := 0\<rparr>]\<rparr>) []"
    by (subst fc_stack_call_next) (simp_all add: fc_stack_step_def Let_def)
  also have "\<dots> = Some (case fcs_data st of
        [] \<Rightarrow>
          (Some (if slot_result (fcs_slots st ! s) = - 1 then Inl Empty
                 else Inr (slot_result (fcs_slots st ! s))),
           st\<lparr>fcs_lock := False,
              fcs_slots := (fcs_slots st)[s := (fcs_slots st ! s)
                             \<lparr>slot_done := True, slot_op := 0\<rparr>]\<rparr>)
      | v # rest \<Rightarrow>
          (Some (if v = - 1 then Inl Empty else Inr v),
           st\<lparr>fcs_data := rest, fcs_lock := False,
              fcs_slots := (fcs_slots st)[s := (fcs_slots st ! s)
                             \<lparr>slot_result := v, slot_done := True, slot_op := 0\<rparr>]\<rparr>))"
    using s len
    by (subst fc_stack_call_next, simp, simp)
       (simp add: fc_stack_step_def Let_def fc_stack_call_returned fc_stack_call_next
          split: list.splits)
  finally show ?thesis .
qed

lemma fc_stack_pop_idle:
  assumes idle: "fcs_idle st" and slot: "fc_stack_get_slot tid g = (int s, g')"
    and s: "s < MAX_THREADS"
  shows "fc_stack_pop tid (g, st) [] =
     Some (case fcs_data st of
        [] \<Rightarrow>
          (if slot_result (fcs_slots st ! s) = - 1 then Inl Empty
           else Inr (slot_result (fcs_slots st ! s)), g',
           st\<lparr>fcs_lock := False,
              fcs_slots := (fcs_slots st)[s := (fcs_slots st ! s)
                             \<lparr>slot_done := True, slot_op := 0\<rparr>]\<rparr>)
      | v # rest \<Rightarrow>
          (if v = - 1 then Inl Empty else Inr v, g',
           st\<lparr>fcs_data := rest, fcs_lock := False,
              fcs_slots := (fcs_slots st)[s := (fcs_slots st ! s)
                             \<lparr>slot_result := v, slot_done := True, slot_op := 0\<rparr>]\<rparr>))"
proof -
  from idle s have len: "s < length (fcs_slots st)"
    by (simp add: fcs_idle_def)
  show ?thesis
    using len
    by (simp add: fc_stack_pop_def slot fc_stack_call_pop_idle [OF idle s] split: list.splits)
qed



lemma fcs_idle_init: "length raw = MAX_THREADS \<Longrightarrow> fcs_idle (fc_stack_init raw)"
  by (simp add: fcs_idle_def fc_stack_init_def)


lemma fc_queue_call_next:
  assumes "fc_returned pc = None" and "pc \<noteq> Spin"
  shows "fc_queue_call \<lparr>th_pc = pc, th_slot = s, th_req = rq\<rparr> st [] =
         fc_queue_call (fst (fc_queue_step \<lparr>th_pc = pc, th_slot = s, th_req = rq\<rparr> st))
           (snd (fc_queue_step \<lparr>th_pc = pc, th_slot = s, th_req = rq\<rparr> st)) []"
  using assms by (subst fc_queue_call.simps) simp

lemma fc_queue_scan_idle:
  assumes "i \<le> j" and "j \<le> MAX_THREADS"
    and "\<And>k. i \<le> k \<Longrightarrow> k < j \<Longrightarrow> slot_op (fcq_slots st ! k) = 0"
  shows "fc_queue_call \<lparr>th_pc = Load_op i, th_slot = s, th_req = rq\<rparr> st [] =
         fc_queue_call \<lparr>th_pc = Load_op j, th_slot = s, th_req = rq\<rparr> st []"
  using assms
proof (induction rule: inc_induct)
  case base
  show ?case ..
next
  case (step n)
  from step.hyps step.prems(1) have n: "n < MAX_THREADS" by simp
  have op: "slot_op (fcq_slots st ! n) = 0" using step.prems(2) [of n] step.hyps by simp
  have "fc_queue_call \<lparr>th_pc = Load_op n, th_slot = s, th_req = rq\<rparr> st [] =
        fc_queue_call \<lparr>th_pc = Load_op (Suc n), th_slot = s, th_req = rq\<rparr> st []"
    by (subst fc_queue_call_next) (simp_all add: fc_queue_step_def Let_def n op)
  also have "\<dots> = fc_queue_call \<lparr>th_pc = Load_op j, th_slot = s, th_req = rq\<rparr> st []"
    using step.prems by (intro step.IH) simp_all
  finally show ?case .
qed

lemma fc_queue_combine_pop:
  assumes s: "s < MAX_THREADS" and len: "length (fcq_slots st) = MAX_THREADS"
    and op: "slot_op (fcq_slots st ! s) = 2"
    and idle: "\<And>k. k < MAX_THREADS \<Longrightarrow> k \<noteq> s \<Longrightarrow> slot_op (fcq_slots st ! k) = 0"
  shows "fc_queue_call \<lparr>th_pc = Load_op 0, th_slot = t, th_req = rq\<rparr> st [] =
         fc_queue_call \<lparr>th_pc = Unlock, th_slot = t, th_req = rq\<rparr>
           (case fcq_data st of
              [] \<Rightarrow> st\<lparr>fcq_slots := (fcq_slots st)[s := (fcq_slots st ! s)\<lparr>slot_done := True\<rparr>]\<rparr>
            | v # rest \<Rightarrow>
                st\<lparr>fcq_data := rest,
                   fcq_slots := (fcq_slots st)[s := (fcq_slots st ! s)
                                  \<lparr>slot_result := v, slot_done := True\<rparr>]\<rparr>) []"
  (is "_ = fc_queue_call _ ?st' []")
proof -
  have "fc_queue_call \<lparr>th_pc = Load_op 0, th_slot = t, th_req = rq\<rparr> st [] =
        fc_queue_call \<lparr>th_pc = Load_op s, th_slot = t, th_req = rq\<rparr> st []"
    using s by (intro fc_queue_scan_idle idle) simp_all
  also have "\<dots> = fc_queue_call \<lparr>th_pc = Serve_pop s, th_slot = t, th_req = rq\<rparr> st []"
    by (subst fc_queue_call_next) (simp_all add: fc_queue_step_def Let_def s op)
  also have "\<dots> = fc_queue_call \<lparr>th_pc = Set_done s, th_slot = t, th_req = rq\<rparr>
      (case fcq_data st of
         [] \<Rightarrow> st
       | v # rest \<Rightarrow>
           st\<lparr>fcq_data := rest,
              fcq_slots := (fcq_slots st)[s := (fcq_slots st ! s)\<lparr>slot_result := v\<rparr>]\<rparr>) []"
    by (subst fc_queue_call_next) (simp_all add: fc_queue_step_def Let_def split: list.splits)
  also have "\<dots> = fc_queue_call \<lparr>th_pc = Load_op (Suc s), th_slot = t, th_req = rq\<rparr> ?st' []"
    using s len
    by (subst fc_queue_call_next) (simp_all add: fc_queue_step_def Let_def split: list.splits)
  also have "\<dots> = fc_queue_call \<lparr>th_pc = Load_op MAX_THREADS, th_slot = t, th_req = rq\<rparr> ?st' []"
    using s by (intro fc_queue_scan_idle) (auto simp: idle split: list.splits)
  also have "\<dots> = fc_queue_call \<lparr>th_pc = Unlock, th_slot = t, th_req = rq\<rparr> ?st' []"
    by (subst fc_queue_call_next) (simp_all add: fc_queue_step_def Let_def)
  finally show ?thesis .
qed


lemma fc_queue_call_returned:
  "fc_queue_call \<lparr>th_pc = Returned r, th_slot = s, th_req = rq\<rparr> st ws = Some (r, st)"
  by (subst fc_queue_call.simps) simp

lemma fc_queue_call_pop_idle:
  assumes idle: "fcq_idle st" and s: "s < MAX_THREADS"
  shows "fc_queue_call \<lparr>th_pc = Post_op, th_slot = s, th_req = Remove\<rparr> st [] =
     Some (case fcq_data st of
        [] \<Rightarrow>
          (Some (if slot_result (fcq_slots st ! s) = - 1 then Inl Empty
                 else Inr (slot_result (fcq_slots st ! s))),
           st\<lparr>fcq_lock := False,
              fcq_slots := (fcq_slots st)[s := (fcq_slots st ! s)
                             \<lparr>slot_done := True, slot_op := 0\<rparr>]\<rparr>)
      | v # rest \<Rightarrow>
          (Some (if v = - 1 then Inl Empty else Inr v),
           st\<lparr>fcq_data := rest, fcq_lock := False,
              fcq_slots := (fcq_slots st)[s := (fcq_slots st ! s)
                             \<lparr>slot_result := v, slot_done := True, slot_op := 0\<rparr>]\<rparr>))"
proof -
  from idle s have len: "length (fcq_slots st) = MAX_THREADS" and lock: "\<not> fcq_lock st"
    and ops: "\<And>k. k < MAX_THREADS \<Longrightarrow> slot_op (fcq_slots st ! k) = 0"
    by (simp_all add: fcq_idle_def)
  let ?posted = "st\<lparr>fcq_slots := (fcq_slots st)[s := (fcq_slots st ! s)
      \<lparr>slot_op := 2, slot_done := False\<rparr>], fcq_lock := True\<rparr>"
  let ?served = "case fcq_data ?posted of
      [] \<Rightarrow> ?posted\<lparr>fcq_slots := (fcq_slots ?posted)[s := (fcq_slots ?posted ! s)
                        \<lparr>slot_done := True\<rparr>]\<rparr>
    | v # rest \<Rightarrow> ?posted\<lparr>fcq_data := rest,
          fcq_slots := (fcq_slots ?posted)[s := (fcq_slots ?posted ! s)
                        \<lparr>slot_result := v, slot_done := True\<rparr>]\<rparr>"
  have "fc_queue_call \<lparr>th_pc = Post_op, th_slot = s, th_req = Remove\<rparr> st [] =
        fc_queue_call \<lparr>th_pc = Post_done, th_slot = s, th_req = Remove\<rparr>
          (st\<lparr>fcq_slots := (fcq_slots st)[s := (fcq_slots st ! s)\<lparr>slot_op := 2\<rparr>]\<rparr>) []"
    by (subst fc_queue_call_next) (simp_all add: fc_queue_step_def Let_def)
  also have "\<dots> = fc_queue_call \<lparr>th_pc = Try_lock, th_slot = s, th_req = Remove\<rparr>
          (st\<lparr>fcq_slots := (fcq_slots st)[s := (fcq_slots st ! s)
                 \<lparr>slot_op := 2, slot_done := False\<rparr>]\<rparr>) []"
    using s len by (subst fc_queue_call_next) (simp_all add: fc_queue_step_def Let_def)
  also have "\<dots> = fc_queue_call \<lparr>th_pc = Load_op 0, th_slot = s, th_req = Remove\<rparr> ?posted []"
    using lock by (subst fc_queue_call_next) (simp_all add: fc_queue_step_def Let_def)
  also have "\<dots> = fc_queue_call \<lparr>th_pc = Unlock, th_slot = s, th_req = Remove\<rparr> ?served []"
    using s len by (intro fc_queue_combine_pop) (simp_all add: ops)
  also have "\<dots> = fc_queue_call \<lparr>th_pc = Reset_op, th_slot = s, th_req = Remove\<rparr>
      (?served\<lparr>fcq_lock := False\<rparr>) []"
    by (subst fc_queue_call_next) (simp_all add: fc_queue_step_def Let_def)
  also have "\<dots> = fc_queue_call \<lparr>th_pc = Check_result, th_slot = s, th_req = Remove\<rparr>
      (?served\<lparr>fcq_lock := False,
         fcq_slots := (fcq_slots ?served)[s := (fcq_slots ?served ! s)\<lparr>slot_op := 0\<rparr>]\<rparr>) []"
    by (subst fc_queue_call_next) (simp_all add: fc_queue_step_def Let_def)
  also have "\<dots> = Some (case fcq_data st of
        [] \<Rightarrow>
          (Some (if slot_result (fcq_slots st ! s) = - 1 then Inl Empty
                 else Inr (slot_result (fcq_slots st ! s))),
           st\<lparr>fcq_lock := False,
              fcq_slots := (fcq_slots st)[s := (fcq_slots st ! s)
                             \<lparr>slot_done := True, slot_op := 0\<rparr>]\<rparr>)
      | v # rest \<Rightarrow>
          (Some (if v = - 1 then Inl Empty else Inr v),
           st\<lparr>fcq_data := rest, fcq_lock := False,
              fcq_slots := (fcq_slots st)[s := (fcq_slots st ! s)
                             \<lparr>slot_result := v, slot_done := True, slot_op := 0\<rparr>]\<rparr>))"
    using s len
    by (subst fc_queue_call_next, simp, simp)
       (simp add: fc_queue_step_def Let_def fc_queue_call_returned fc_queue_call_next
          split: list.splits)
  finally show ?thesis .
qed

lemma fc_queue_dequeue_idle:
  assumes idle: "fcq_idle st" and slot: "fc_queue_get_slot tid g = (int s, g')"
    and s: "s < MAX_THREADS"
  shows "fc_queue_dequeue tid (g, st) [] =
     Some (case fcq_data st of
        [] \<Rightarrow>
          (if slot_result (fcq_slots st ! s) = - 1 then Inl Empty
           else Inr (slot_result (fcq_slots st ! s)), g',
           st\<lparr>fcq_lock := False,
              fcq_slots := (fcq_slots st)[s := (fcq_slots st ! s)
                             \<lparr>slot_done := True, slot_op := 0\<rparr>]\<rparr>)
      | v # rest \<Rightarrow>
          (if v = - 1 then Inl Empty else Inr v, g',
           st\<lparr>fcq_data := rest, fcq_lock := False,
              fcq_slots := (fcq_slots st)[s := (fcq_slots st ! s)
                             \<lparr>slot_result := v, slot_done := True, slot_op := 0\<rparr>]\<rparr>))"
proof -
  from idle s have len: "s < length (fcq_slots st)"
    by (simp add: fcq_idle_def)
  show ?thesis
    using len
    by (simp add: fc_queue_dequeue_def slot fc_queue_call_pop_idle [OF idle s] split: list.splits)
qed



lemma fcq_idle_init: "length raw = MAX_THREADS \<Longrightarrow> fcq_idle (fc_queue_init raw)"
  by (simp add: fcq_idle_def fc_queue_init_def)


subsection \<open>The result of a call\<close>


lemma fc_stack_pop_fresh:
  assumes "length raw = MAX_THREADS"
  shows "map_option fst (fc_stack_pop tid (fc_stack_statics_init, fc_stack_init raw) []) =
           Some (if slot_result (raw ! 0) = - 1 then Inl Empty
                 else Inr (slot_result (raw ! 0)))"
proof -
  have s: "0 < MAX_THREADS" by (simp add: MAX_THREADS_def)
  have r: "slot_result (fcs_slots (fc_stack_init raw) ! 0) = slot_result (raw ! 0)"
    using assms s by (simp add: fc_stack_init_def)
  have d: "fcs_data (fc_stack_init raw) = []"
    by (simp add: fc_stack_init_def)
  show ?thesis
    using fc_stack_pop_idle [OF fcs_idle_init [OF assms], of tid fc_stack_statics_init 0]
      fc_stack_get_slot_first [of tid] s
    by (simp add: r d)
qed









lemma fc_queue_dequeue_fresh:
  assumes "length raw = MAX_THREADS"
  shows "map_option fst (fc_queue_dequeue tid (fc_queue_statics_init, fc_queue_init raw) []) =
           Some (if slot_result (raw ! 0) = - 1 then Inl Empty
                 else Inr (slot_result (raw ! 0)))"
proof -
  have s: "0 < MAX_THREADS" by (simp add: MAX_THREADS_def)
  have r: "slot_result (fcq_slots (fc_queue_init raw) ! 0) = slot_result (raw ! 0)"
    using assms s by (simp add: fc_queue_init_def)
  have d: "fcq_data (fc_queue_init raw) = []"
    by (simp add: fc_queue_init_def)
  show ?thesis
    using fc_queue_dequeue_idle [OF fcq_idle_init [OF assms], of tid fc_queue_statics_init 0]
      fc_queue_get_slot_first [of tid] s
    by (simp add: r d)
qed









subsection \<open>The empty sentinel\<close>





text \<open>
  Claim C3 (the first \<^verbatim>\<open>pop\<close> or \<^verbatim>\<open>dequeue\<close> on a constructed container reports the
  empty error) holds for the SGL stack, the SGL queue, the Treiber stack, the Michael
  and Scott queue and the elimination stack, and fails for the flat-combining stack and
  queue: their constructors leave \<^verbatim>\<open>result\<close> as they find it and the combiner does not
  write it when the container is empty, so the first \<^verbatim>\<open>pop\<close> reports the empty error
  only if that memory held \<open>-1\<close>; where it held 0 the call returns 0.
\<close>

theorem fresh_container_pop:
  "sgl_stack_pop sgl_stack_init = (Inl Empty, sgl_stack_init) \<and>
   sgl_queue_dequeue sgl_queue_init = (Inl Empty, sgl_queue_init) \<and>
   treiber_stack_pop sp treiber_stack_init = (Inl Empty, treiber_stack_init) \<and>
   msqueue_dequeue sp msqueue_init = Some (Inl Empty, msqueue_init) \<and>
   elimination_stack_pop r sp elimination_stack_init = (Inl Empty, elimination_stack_init) \<and>
   map_option fst
     (fc_stack_pop tid
        (fc_stack_statics_init,
         fc_stack_init (replicate MAX_THREADS
           \<lparr>slot_op = 0, slot_val = 0, slot_result = 0, slot_done = False\<rparr>)) [])
     = Some (Inr 0) \<and>
   map_option fst
     (fc_queue_dequeue tid
        (fc_queue_statics_init,
         fc_queue_init (replicate MAX_THREADS
           \<lparr>slot_op = 0, slot_val = 0, slot_result = 0, slot_done = False\<rparr>)) [])
     = Some (Inr 0)"
proof -
  let ?raw = "replicate MAX_THREADS \<lparr>slot_op = 0, slot_val = 0, slot_result = 0, slot_done = False\<rparr>"
  have s: "0 < MAX_THREADS" by (simp add: MAX_THREADS_def)
  have "sgl_stack_pop sgl_stack_init = (Inl Empty, sgl_stack_init)"
    by (simp add: sgl_stack_pop_def sgl_stack_init_def)
  moreover have "sgl_queue_dequeue sgl_queue_init = (Inl Empty, sgl_queue_init)"
    by (simp add: sgl_queue_dequeue_def sgl_queue_init_def)
  moreover have "treiber_stack_pop sp treiber_stack_init = (Inl Empty, treiber_stack_init)"
    by (simp add: treiber_stack_pop_eq treiber_stack_init_def)
  moreover have "msqueue_dequeue sp msqueue_init = Some (Inl Empty, msqueue_init)"
    by (rule msq_abs_dequeue_empty [OF msq_abs_init])
  moreover have "elimination_stack_pop r sp elimination_stack_init =
      (Inl Empty, elimination_stack_init)"
    by (simp add: elimination_stack_pop_idle elimination_stack_pop_loop_eq
        elimination_stack_init_def)
  moreover have "map_option fst
     (fc_stack_pop tid (fc_stack_statics_init, fc_stack_init ?raw) []) = Some (Inr 0)"
    using fc_stack_pop_fresh [of ?raw tid] s by simp
  moreover have "map_option fst
     (fc_queue_dequeue tid (fc_queue_statics_init, fc_queue_init ?raw) []) = Some (Inr 0)"
    using fc_queue_dequeue_fresh [of ?raw tid] s by simp
  ultimately show ?thesis by (intro conjI)
qed

end
